theory Spec2Isabelle
  imports Main "HOL-Library.AList" "HOL-Library.Multiset"
begin

section \<open>The persisted data model (types.js)\<close>

text \<open>
  A property that may be undefined is an option; a number is an integer. A string
  that the code only stores, compares and uses as a key is a list of characters. A
  string that goes through the string functions of the language (\<^verbatim>\<open>trim\<close>,
  \<^verbatim>\<open>toLowerCase\<close>, \<^verbatim>\<open>slice\<close>, \<^verbatim>\<open>length\<close>, the conversions of
  \<^verbatim>\<open>URLSearchParams\<close>) is a JavaScript string as the language has it: the list of
  its UTF-16 code units, each a number below \<open>2^16\<close>. \<open>ascii\<close> gives the code units
  of an ASCII literal.
\<close>

type_synonym ustring = "nat list"

definition ascii :: "string \<Rightarrow> ustring" where
  "ascii s = map of_char s"

record widget_rec =
  w_dataid :: "string option"
  w_serviceId :: "string option"
  w_url :: string
  w_columns :: "int option"
  w_rows :: "int option"
  w_type :: "string option"
  w_order :: "string option"

record view =
  view_id :: string
  view_name :: string
  widgetState :: "widget_rec list"

record board =
  board_id :: "ustring option"
  board_name :: "ustring option"
  views :: "view list"

record service_rec =
  service_id :: "ustring option"
  service_name :: "ustring option"
  service_url :: "ustring option"
  service_type :: "string option"
  maxInstances :: "int option"

text \<open>A string or undefined is truthy unless it is undefined or empty.\<close>

definition truthy :: "'c list option \<Rightarrow> bool" where
  "truthy x = (case x of None \<Rightarrow> False | Some s \<Rightarrow> s \<noteq> [])"

section \<open>The widget store (component/widget/widgetStore.js)\<close>

text \<open>
  A live widget is a DOM element. Of the element the store reads
  \<^verbatim>\<open>dataset.dataid\<close> and \<^verbatim>\<open>dataset.service\<close> (either may be undefined) and
  writes \<^verbatim>\<open>style.display\<close>.
\<close>

record element =
  dataid :: "string option"
  service :: "string option"
  display :: string

text \<open>
  \<^verbatim>\<open>WidgetStore\<close> has the fields \<^verbatim>\<open>maxSize\<close>, \<^verbatim>\<open>widgets\<close> (a JavaScript
  \<^verbatim>\<open>Map\<close>, whose iteration order is the insertion order) and \<^verbatim>\<open>_serviceLocks\<close>
  (a \<^verbatim>\<open>Map\<close> from service name to reference count, of which only
  \<^verbatim>\<open>has\<close>, \<^verbatim>\<open>get\<close>, \<^verbatim>\<open>set\<close> and \<^verbatim>\<open>delete\<close> are used). The ordered map is an
  association list: \<^verbatim>\<open>Map.set\<close> is \<^const>\<open>AList.update\<close> (replace in place, or
  append), \<^verbatim>\<open>Map.delete\<close> is \<^const>\<open>AList.delete\<close>, \<^verbatim>\<open>Map.get\<close> is
  \<^const>\<open>map_of\<close>. The field \<open>evicted\<close> records, in order, the ids that
  \<^verbatim>\<open>_evict\<close> removed (the lines it sends to the logger).
\<close>

record widget_store =
  maxSize :: int
  widgets :: "(string \<times> element) list"
  serviceLocks :: "string \<rightharpoonup> int"
  evicted :: "string list"

definition WidgetStore :: "int \<Rightarrow> widget_store" where
  "WidgetStore m = \<lparr>maxSize = m, widgets = [], serviceLocks = Map.empty, evicted = []\<rparr>"

definition has :: "string \<Rightarrow> widget_store \<Rightarrow> bool" where
  "has i s = (map_of (widgets s) i \<noteq> None)"

text \<open>\<^verbatim>\<open>_evict(id)\<close>; the argument is undefined when the map has no first key.\<close>

definition evict :: "string option \<Rightarrow> widget_store \<Rightarrow> widget_store" where
  "evict io s =
     (case io of
        None \<Rightarrow> s
      | Some i \<Rightarrow>
          (case map_of (widgets s) i of
             None \<Rightarrow> s
           | Some el \<Rightarrow> s\<lparr>widgets := AList.delete i (widgets s), evicted := evicted s @ [i]\<rparr>))"

text \<open>\<^verbatim>\<open>this.widgets.keys().next().value\<close>\<close>

definition oldestId :: "widget_store \<Rightarrow> string option" where
  "oldestId s = (case widgets s of [] \<Rightarrow> None | (k, _) # _ \<Rightarrow> Some k)"

text \<open>
  \<^verbatim>\<open>_ensureLimit\<close> is a \<^verbatim>\<open>while\<close> loop. With a negative \<^verbatim>\<open>maxSize\<close> it never
  ends (an empty map has no key to evict), so the result is optional.
\<close>

partial_function (option) ensureLimit :: "widget_store \<Rightarrow> widget_store option" where
  "ensureLimit s =
     (if int (length (widgets s)) > maxSize s
      then ensureLimit (evict (oldestId s) s)
      else Some s)"

declare ensureLimit.simps [code]

definition add :: "element \<Rightarrow> widget_store \<Rightarrow> widget_store option" where
  "add el s =
     (case dataid el of
        None \<Rightarrow> Some s
      | Some i \<Rightarrow>
          if i = [] then Some s
          else
            let ws = (if has i s then AList.delete i (widgets s) else widgets s)
            in ensureLimit (s\<lparr>widgets := AList.update i el ws\<rparr>))"

definition get :: "string \<Rightarrow> widget_store \<Rightarrow> element option \<times> widget_store" where
  "get i s =
     (if \<not> has i s then (None, s)
      else
        let el = map_of (widgets s) i
        in (el, s\<lparr>widgets := AList.update i (the el) (AList.delete i (widgets s))\<rparr>))"

text \<open>
  \<^verbatim>\<open>show\<close> and \<^verbatim>\<open>hide\<close> assign \<^verbatim>\<open>style.display\<close> of the stored element;
  \<^verbatim>\<open>show\<close> goes through \<^verbatim>\<open>get\<close>, \<^verbatim>\<open>hide\<close> reads the map directly.
\<close>

definition "show" :: "string \<Rightarrow> widget_store \<Rightarrow> widget_store" where
  "show i s =
     (case get i s of
        (None, s') \<Rightarrow> s'
      | (Some el, s') \<Rightarrow> s'\<lparr>widgets := AList.update i (el\<lparr>display := []\<rparr>) (widgets s')\<rparr>)"

definition hide :: "string \<Rightarrow> widget_store \<Rightarrow> widget_store" where
  "hide i s =
     (case map_of (widgets s) i of
        None \<Rightarrow> s
      | Some el \<Rightarrow> s\<lparr>widgets := AList.update i (el\<lparr>display := ''none''\<rparr>) (widgets s)\<rparr>)"

definition isAdding :: "string \<Rightarrow> widget_store \<Rightarrow> bool" where
  "isAdding serviceName s = (serviceLocks s serviceName \<noteq> None)"

definition lock :: "string \<Rightarrow> widget_store \<Rightarrow> widget_store" where
  "lock serviceName s =
     s\<lparr>serviceLocks := (serviceLocks s)
          (serviceName \<mapsto> (case serviceLocks s serviceName of None \<Rightarrow> 0 | Some c \<Rightarrow> c) + 1)\<rparr>"

definition unlock :: "string \<Rightarrow> widget_store \<Rightarrow> widget_store" where
  "unlock serviceName s =
     (let n = (case serviceLocks s serviceName of None \<Rightarrow> 1 | Some c \<Rightarrow> c) - 1
      in if n = 0
         then s\<lparr>serviceLocks := (serviceLocks s)(serviceName := None)\<rparr>
         else s\<lparr>serviceLocks := (serviceLocks s)(serviceName \<mapsto> n)\<rparr>)"

subsection \<open>Sequences of calls\<close>

datatype store_call = Add element | Get string | Show string | Hide string

fun call :: "store_call \<Rightarrow> widget_store \<Rightarrow> widget_store option" where
  "call (Add el) s = add el s"
| "call (Get i) s = Some (snd (get i s))"
| "call (Show i) s = Some (show i s)"
| "call (Hide i) s = Some (hide i s)"

fun calls :: "store_call list \<Rightarrow> widget_store \<Rightarrow> widget_store option" where
  "calls [] s = Some s"
| "calls (c # cs) s = (case call c s of None \<Rightarrow> None | Some s' \<Rightarrow> calls cs s')"

text \<open>
  What every reachable store satisfies: the keys of the map are distinct, as in any
  \<^verbatim>\<open>Map\<close>, and there are at most \<^verbatim>\<open>maxSize\<close> of them.
\<close>

definition store_ok :: "int \<Rightarrow> widget_store \<Rightarrow> bool" where
  "store_ok m s \<longleftrightarrow> maxSize s = m \<and> distinct (map fst (widgets s)) \<and> int (length (widgets s)) \<le> m"

datatype lock_call = Lock string | Unlock string

fun lock_step :: "lock_call \<Rightarrow> widget_store \<Rightarrow> widget_store" where
  "lock_step (Lock n) s = lock n s"
| "lock_step (Unlock n) s = unlock n s"

definition lock_calls :: "lock_call list \<Rightarrow> widget_store \<Rightarrow> widget_store" where
  "lock_calls cs s = fold lock_step cs s"

text \<open>The count a name holds, zero when the map has no entry for it.\<close>

definition held :: "string \<Rightarrow> widget_store \<Rightarrow> int" where
  "held n s = (case serviceLocks s n of None \<Rightarrow> 0 | Some c \<Rightarrow> c)"

definition counts_positive :: "widget_store \<Rightarrow> bool" where
  "counts_positive s = (\<forall>n c. serviceLocks s n = Some c \<longrightarrow> 1 \<le> c)"

text \<open>
  A sequence of lock calls is paired for a name when no \<^verbatim>\<open>unlock\<close> of the name comes
  without an earlier \<^verbatim>\<open>lock\<close> of it still held; \<open>d\<close> is the number held at the start.
\<close>

fun paired :: "string \<Rightarrow> nat \<Rightarrow> lock_call list \<Rightarrow> bool" where
  "paired n d [] = True"
| "paired n d (Lock m # cs) = paired n (if m = n then Suc d else d) cs"
| "paired n d (Unlock m # cs) = (if m = n then 0 < d \<and> paired n (d - 1) cs else paired n d cs)"

definition locks_of :: "string \<Rightarrow> lock_call list \<Rightarrow> nat" where
  "locks_of n cs = length (filter (\<lambda>c. c = Lock n) cs)"

definition unlocks_of :: "string \<Rightarrow> lock_call list \<Rightarrow> nat" where
  "unlocks_of n cs = length (filter (\<lambda>c. c = Unlock n) cs)"

section \<open>The instance limit of a service (addWidget in component/widget/widgetManagement.js)\<close>

text \<open>
  The part of \<^verbatim>\<open>addWidget\<close> under the comment ``Enforce global maxInstances'', up
  to the \<^verbatim>\<open>return\<close> that follows the notification. At that point
  \<^verbatim>\<open>serviceName\<close> is the name found for the URL and \<^verbatim>\<open>serviceObj\<close> the resolved
  service; of the latter only \<^verbatim>\<open>maxInstances\<close> is read, a number or not.
  \<^verbatim>\<open>boards\<close> is the array of boards of the stored configuration.

  \<^verbatim>\<open>liveDataIds\<close> are the \<^verbatim>\<open>dataset.dataid\<close> of the elements of the store whose
  \<^verbatim>\<open>dataset.service\<close> is the service name.
\<close>

definition liveDataIds :: "widget_store \<Rightarrow> string option \<Rightarrow> string option list" where
  "liveDataIds s serviceName =
     map dataid (filter (\<lambda>el. service el = serviceName) (map snd (widgets s)))"

text \<open>
  \<^verbatim>\<open>persistedDataIds\<close> are the truthy \<^verbatim>\<open>dataid\<close> of the widgets in the
  \<^verbatim>\<open>widgetState\<close> of every view of every board; the source has no test of the
  service here.
\<close>

definition persistedDataIds :: "board list \<Rightarrow> string option list" where
  "persistedDataIds boards =
     filter truthy (map w_dataid (concat (map widgetState (concat (map views boards)))))"

text \<open>\<^verbatim>\<open>new Set([...liveDataIds, ...persistedDataIds])\<close> and its size.\<close>

definition allIds :: "widget_store \<Rightarrow> board list \<Rightarrow> string option \<Rightarrow> string option list" where
  "allIds s boards serviceName =
     rev (remdups (rev (liveDataIds s serviceName @ persistedDataIds boards)))"

definition effectiveCount :: "widget_store \<Rightarrow> board list \<Rightarrow> string option \<Rightarrow> nat" where
  "effectiveCount s boards serviceName = length (allIds s boards serviceName)"

text \<open>
  \<^verbatim>\<open>!!dataid && (liveDataIds.includes(dataid) || persistedDataIds.includes(dataid))\<close>,
  \<open>did\<close> being the argument \<^verbatim>\<open>dataid\<close> of the call, \<open>None\<close> for null.
\<close>

definition alreadyExists ::
  "widget_store \<Rightarrow> board list \<Rightarrow> string option \<Rightarrow> string option \<Rightarrow> bool" where
  "alreadyExists s boards serviceName did \<longleftrightarrow>
     truthy did \<and>
     (did \<in> set (liveDataIds s serviceName) \<or> did \<in> set (persistedDataIds boards))"

text \<open>
  The two nested tests, after which the call notifies and returns: \<open>maxInst\<close> is
  \<^verbatim>\<open>serviceObj.maxInstances\<close>, \<open>None\<close> when that is not a number.
\<close>

definition limit_reached ::
  "widget_store \<Rightarrow> board list \<Rightarrow> string option \<Rightarrow> int option \<Rightarrow> string option \<Rightarrow> bool" where
  "limit_reached s boards serviceName maxInst did =
     (case maxInst of
        None \<Rightarrow> False
      | Some m \<Rightarrow>
          m > 0 \<and> \<not> alreadyExists s boards serviceName did \<and>
          int (effectiveCount s boards serviceName) \<ge> m)"

text \<open>
  The count as the specification words it: the number of distinct dataids of the
  widgets of the service, live or persisted. A persisted widget is of the service
  whose id is its \<^verbatim>\<open>serviceId\<close>, as \<^verbatim>\<open>countServiceInstances\<close> of
  component/service/ServiceControl.js has it.
\<close>

definition spec_effectiveCount ::
  "widget_store \<Rightarrow> board list \<Rightarrow> string option \<Rightarrow> string option \<Rightarrow> nat" where
  "spec_effectiveCount s boards serviceName serviceId =
     length (remdups (liveDataIds s serviceName @
       filter truthy (map w_dataid (filter (\<lambda>w. w_serviceId w = serviceId)
         (concat (map widgetState (concat (map views boards))))))))"

section \<open>The eviction view-model (component/modal/evictionModalViewModel.js)\<close>

text \<open>
  The state of the view-model: \<^verbatim>\<open>selectedIds\<close> is a JavaScript \<^verbatim>\<open>Set\<close>, kept as
  the list of its members in insertion order, \<^verbatim>\<open>selectedOrder\<close> is an array.
\<close>

record vm_state =
  selectedIds :: "string list"
  selectedOrder :: "string list"
  canProceed :: bool

text \<open>\<^verbatim>\<open>Set.add\<close> and \<^verbatim>\<open>Set.delete\<close>\<close>

definition set_add :: "string \<Rightarrow> string list \<Rightarrow> string list" where
  "set_add x xs = (if x \<in> set xs then xs else xs @ [x])"

definition set_delete :: "string \<Rightarrow> string list \<Rightarrow> string list" where
  "set_delete x xs = removeAll x xs"

text \<open>
  \<^verbatim>\<open>(opts.requiredCount && opts.requiredCount > 0) ? opts.requiredCount : 1\<close>, the
  count being a number or null.
\<close>

definition selectionLimit :: "int option \<Rightarrow> int" where
  "selectionLimit requiredCount =
     (case requiredCount of
        None \<Rightarrow> 1
      | Some n \<Rightarrow> if n \<noteq> 0 \<and> n > 0 then n else 1)"

definition initial_state :: vm_state where
  "initial_state = \<lparr>selectedIds = [], selectedOrder = [], canProceed = False\<rparr>"

definition update :: "int \<Rightarrow> vm_state \<Rightarrow> vm_state" where
  "update lim st = st\<lparr>canProceed := (int (length (selectedIds st)) = lim)\<rparr>"

text \<open>
  \<^verbatim>\<open>toggle(id)\<close> returns the id removed on overflow, or undefined. The removed id is
  what \<^verbatim>\<open>selectedOrder.shift()\<close> gives, and it is deleted from the set under
  \<^verbatim>\<open>if (removed)\<close>, that is, unless it is undefined or the empty string.
\<close>

definition toggle :: "int \<Rightarrow> string \<Rightarrow> vm_state \<Rightarrow> string option \<times> vm_state" where
  "toggle lim i st =
     (if i \<in> set (selectedIds st)
      then (None,
            update lim (st\<lparr>selectedIds := set_delete i (selectedIds st),
                            selectedOrder := remove1 i (selectedOrder st)\<rparr>))
      else
        let (removed, st1) =
              (if int (length (selectedIds st)) = lim
               then (case selectedOrder st of
                       [] \<Rightarrow> (None, st)
                     | r # rest \<Rightarrow>
                         (Some r,
                          st\<lparr>selectedOrder := rest,
                              selectedIds := (if r \<noteq> [] then set_delete r (selectedIds st)
                                              else selectedIds st)\<rparr>))
               else (None, st))
        in (removed,
            update lim (st1\<lparr>selectedIds := set_add i (selectedIds st1),
                             selectedOrder := selectedOrder st1 @ [i]\<rparr>)))"

text \<open>A sequence of \<^verbatim>\<open>toggle\<close> calls on the view-model made for a required count.\<close>

definition toggles :: "int option \<Rightarrow> string list \<Rightarrow> vm_state" where
  "toggles requiredCount ids =
     fold (\<lambda>i st. snd (toggle (selectionLimit requiredCount) i st)) ids initial_state"


section \<open>Deduplication and merging (utils/snapshotDedup.js, utils/merge.js)\<close>

text \<open>
  \<^verbatim>\<open>String.prototype.trim\<close> strips, from both ends, the code units that are white
  space or line terminators in the language: tab, line feed, vertical tab, form feed,
  carriage return, space, U+00A0, U+1680, U+2000 to U+200A, U+2028, U+2029, U+202F,
  U+205F, U+3000 and U+FEFF.
\<close>

definition is_white_space :: "nat \<Rightarrow> bool" where
  "is_white_space c \<longleftrightarrow>
     c \<in> {9, 10, 11, 12, 13, 32, 160, 5760, 8232, 8233, 8239, 8287, 12288, 65279} \<or>
     (8192 \<le> c \<and> c \<le> 8202)"

definition trim :: "ustring \<Rightarrow> ustring" where
  "trim s = rev (dropWhile is_white_space (rev (dropWhile is_white_space s)))"

text \<open>
  \<^verbatim>\<open>(n || '').trim().toLowerCase()\<close>. \<^verbatim>\<open>String.prototype.toLowerCase\<close> follows the
  case mappings of Unicode, which are not written out here: it is the parameter
  \<open>toLowerCase\<close> of \<open>norm\<close> and of everything that calls it, and what is proved holds
  whatever function it is.
\<close>

definition norm :: "(ustring \<Rightarrow> ustring) \<Rightarrow> ustring option \<Rightarrow> ustring" where
  "norm toLowerCase n = toLowerCase (trim (case n of None \<Rightarrow> [] | Some s \<Rightarrow> s))"

text \<open>
  The loop of \<^verbatim>\<open>snapshotDedup\<close> over the remaining items, with the two sets and
  the output array as they stand. \<^verbatim>\<open>id && seenIds.has(id)\<close> is \<open>id_seen\<close>.
\<close>

definition id_seen :: "ustring option \<Rightarrow> ustring set \<Rightarrow> bool" where
  "id_seen i seenIds = (case i of None \<Rightarrow> False | Some s \<Rightarrow> s \<noteq> [] \<and> s \<in> seenIds)"

definition name_seen :: "ustring \<Rightarrow> ustring set \<Rightarrow> bool" where
  "name_seen n seenNames = (n \<noteq> [] \<and> n \<in> seenNames)"

definition add_id :: "ustring option \<Rightarrow> ustring set \<Rightarrow> ustring set" where
  "add_id i seenIds = (case i of None \<Rightarrow> seenIds | Some s \<Rightarrow> if s \<noteq> [] then insert s seenIds else seenIds)"

definition add_name :: "ustring \<Rightarrow> ustring set \<Rightarrow> ustring set" where
  "add_name n seenNames = (if n \<noteq> [] then insert n seenNames else seenNames)"

fun dedup_loop ::
  "(ustring \<Rightarrow> ustring) \<Rightarrow> ('a \<Rightarrow> ustring option) \<Rightarrow> ('a \<Rightarrow> ustring option) \<Rightarrow>
   ustring set \<Rightarrow> ustring set \<Rightarrow> 'a list \<Rightarrow> 'a list \<Rightarrow> 'a list" where
  "dedup_loop toLowerCase getId getName seenIds seenNames out [] = out"
| "dedup_loop toLowerCase getId getName seenIds seenNames out (item # items) =
     (let i = getId item; name = norm toLowerCase (getName item)
      in if id_seen i seenIds \<or> name_seen name seenNames
         then dedup_loop toLowerCase getId getName seenIds seenNames out items
         else dedup_loop toLowerCase getId getName (add_id i seenIds) (add_name name seenNames)
                (out @ [item]) items)"

definition snapshotDedup ::
  "(ustring \<Rightarrow> ustring) \<Rightarrow> 'a list \<Rightarrow> ('a \<Rightarrow> ustring option) \<Rightarrow> ('a \<Rightarrow> ustring option) \<Rightarrow> 'a list" where
  "snapshotDedup toLowerCase items getId getName =
     dedup_loop toLowerCase getId getName {} {} [] items"

definition mergeBoards :: "(ustring \<Rightarrow> ustring) \<Rightarrow> board list \<Rightarrow> board list \<Rightarrow> board list" where
  "mergeBoards toLowerCase existingBoards newBoards =
     snapshotDedup toLowerCase (existingBoards @ newBoards) board_id board_name"

text \<open>\<^verbatim>\<open>s => s.id || s.url\<close>\<close>

definition service_key :: "service_rec \<Rightarrow> ustring option" where
  "service_key s = (if truthy (service_id s) then service_id s else service_url s)"

definition mergeServices ::
  "(ustring \<Rightarrow> ustring) \<Rightarrow> service_rec list \<Rightarrow> service_rec list \<Rightarrow> service_rec list" where
  "mergeServices toLowerCase existingServices newServices =
     snapshotDedup toLowerCase (existingServices @ newServices) service_key service_name"

text \<open>
  The ids and the normalized names that the kept items have put into the two sets,
  and whether the loop drops an item after them.
\<close>

definition ids_of :: "('a \<Rightarrow> ustring option) \<Rightarrow> 'a list \<Rightarrow> ustring set" where
  "ids_of getId kept = {s. s \<noteq> [] \<and> Some s \<in> getId ` set kept}"

definition names_of ::
  "(ustring \<Rightarrow> ustring) \<Rightarrow> ('a \<Rightarrow> ustring option) \<Rightarrow> 'a list \<Rightarrow> ustring set" where
  "names_of toLowerCase getName kept =
     {n. n \<noteq> [] \<and> n \<in> (\<lambda>y. norm toLowerCase (getName y)) ` set kept}"

definition seen_before ::
  "(ustring \<Rightarrow> ustring) \<Rightarrow> ('a \<Rightarrow> ustring option) \<Rightarrow> ('a \<Rightarrow> ustring option) \<Rightarrow>
   'a list \<Rightarrow> 'a \<Rightarrow> bool" where
  "seen_before toLowerCase getId getName kept x \<longleftrightarrow>
     (\<exists>y \<in> set kept. truthy (getId x) \<and> getId y = getId x) \<or>
     (\<exists>y \<in> set kept. norm toLowerCase (getName x) \<noteq> [] \<and>
        norm toLowerCase (getName y) = norm toLowerCase (getName x))"

text \<open>
  An item without an id whose name is missing, empty or white space only, that is,
  whose name \<^verbatim>\<open>trim\<close> leaves empty.
\<close>

definition blank_name :: "ustring option \<Rightarrow> bool" where
  "blank_name n = (case n of None \<Rightarrow> True | Some s \<Rightarrow> list_all is_white_space s)"

definition anonymous :: "('a \<Rightarrow> ustring option) \<Rightarrow> ('a \<Rightarrow> ustring option) \<Rightarrow> 'a \<Rightarrow> bool" where
  "anonymous getId getName x \<longleftrightarrow> \<not> truthy (getId x) \<and> blank_name (getName x)"

text \<open>
  For the examples, a lower-casing function that agrees with
  \<^verbatim>\<open>String.prototype.toLowerCase\<close> on strings of code units below 256: the letters
  A to Z and U+00C0 to U+00DE, except the multiplication sign U+00D7, move up by 32.
\<close>

definition toLowerCase_latin1 :: "ustring \<Rightarrow> ustring" where
  "toLowerCase_latin1 s =
     map (\<lambda>c. if (65 \<le> c \<and> c \<le> 90) \<or> (192 \<le> c \<and> c \<le> 222 \<and> c \<noteq> 215) then c + 32 else c) s"

section \<open>Splitting and joining fragment parameters (utils/chunker.js)\<close>

text \<open>
  \<^verbatim>\<open>`${name}${i}`\<close> appends the decimal numeral of the counter \<^verbatim>\<open>i\<close> to the name;
  the digits are the code units 48 to 57.
\<close>

fun decimal :: "nat \<Rightarrow> ustring" where
  "decimal n = (if n < 10 then [48 + n] else decimal (n div 10) @ [48 + n mod 10])"

declare decimal.simps [simp del]

text \<open>
  The loop of \<^verbatim>\<open>splitIntoParams\<close>, with the offset, the counter and the output array
  as they stand. \<^verbatim>\<open>data.length\<close> counts code units and
  \<^verbatim>\<open>data.slice(off, off + maxLen)\<close> takes \<^verbatim>\<open>maxLen\<close> code units from the offset,
  wherever that falls. With \<^verbatim>\<open>maxLen\<close> zero the offset never moves and the loop
  does not end, so the result is optional. The length is a natural number.
\<close>

partial_function (option) split_loop ::
  "ustring \<Rightarrow> ustring \<Rightarrow> nat \<Rightarrow> nat \<Rightarrow> nat \<Rightarrow> (ustring \<times> ustring) list \<Rightarrow>
   (ustring \<times> ustring) list option"
where
  "split_loop name data maxLen off i out =
     (if off < length data
      then split_loop name data maxLen (off + maxLen) (i + 1)
             (out @ [(name @ decimal i, take maxLen (drop off data))])
      else Some out)"

declare split_loop.simps [code]

definition splitIntoParams ::
  "ustring \<Rightarrow> ustring \<Rightarrow> nat \<Rightarrow> (ustring \<times> ustring) list option" where
  "splitIntoParams name data maxLen =
     (if length data \<le> maxLen then Some [(name, data)]
      else split_loop name data maxLen 0 0 [])"

text \<open>
  A \<^verbatim>\<open>URLSearchParams\<close> holds scalar-value strings: on the way in, every key and
  value has each surrogate code unit that is not part of a pair (a high surrogate,
  U+D800 to U+DBFF, followed by a low one, U+DC00 to U+DFFF) replaced by U+FFFD.
\<close>

definition is_high :: "nat \<Rightarrow> bool" where
  "is_high c \<longleftrightarrow> 55296 \<le> c \<and> c \<le> 56319"

definition is_low :: "nat \<Rightarrow> bool" where
  "is_low c \<longleftrightarrow> 56320 \<le> c \<and> c \<le> 57343"

fun to_usv :: "ustring \<Rightarrow> ustring" where
  "to_usv [] = []"
| "to_usv [c] = (if is_high c \<or> is_low c then [65533] else [c])"
| "to_usv (c # d # rest) =
     (if is_high c \<and> is_low d then c # d # to_usv rest
      else if is_high c \<or> is_low c then 65533 # to_usv (d # rest)
      else c # to_usv (d # rest))"

text \<open>
  \<^verbatim>\<open>Object.fromEntries\<close> defines one property per entry, a later entry of the same
  key replacing the value. The own keys of an object come in the order of the
  language: first the array indices (the canonical decimal numerals below
  \<open>2^32 - 1\<close>) in ascending order, then the other keys in the order of creation.
  \<^verbatim>\<open>new URLSearchParams(record)\<close> goes through the properties in that order and
  converts key and value, a key that is there already getting the new value.
\<close>

definition is_digit :: "nat \<Rightarrow> bool" where
  "is_digit c \<longleftrightarrow> 48 \<le> c \<and> c \<le> 57"

definition digits_value :: "ustring \<Rightarrow> nat" where
  "digits_value s = foldl (\<lambda>a c. 10 * a + (c - 48)) 0 s"

definition array_index :: "ustring \<Rightarrow> nat option" where
  "array_index k =
     (if k \<noteq> [] \<and> list_all is_digit k \<and> decimal (digits_value k) = k \<and>
         digits_value k < 4294967295
      then Some (digits_value k) else None)"

definition Object_fromEntries :: "(ustring \<times> ustring) list \<Rightarrow> (ustring \<times> ustring) list" where
  "Object_fromEntries entries = fold (\<lambda>(k, v) obj. AList.update k v obj) entries []"

definition own_properties :: "(ustring \<times> ustring) list \<Rightarrow> (ustring \<times> ustring) list" where
  "own_properties obj =
     sort_key (\<lambda>p. the (array_index (fst p))) (filter (\<lambda>p. array_index (fst p) \<noteq> None) obj) @
     filter (\<lambda>p. array_index (fst p) = None) obj"

definition URLSearchParams :: "(ustring \<times> ustring) list \<Rightarrow> (ustring \<times> ustring) list" where
  "URLSearchParams obj =
     fold (\<lambda>(k, v) params. AList.update (to_usv k) (to_usv v) params) (own_properties obj) []"

text \<open>
  \<^verbatim>\<open>joinFromParams\<close> reads the \<^verbatim>\<open>URLSearchParams\<close> as the list of its entries in
  order: \<^verbatim>\<open>get\<close> converts the name like any other string that enters and gives the
  first value under it, \<^verbatim>\<open>entries()\<close> is the list. The result is a string or null.
  \<^verbatim>\<open>Number(k.slice(name.length))\<close> followed by the test \<^verbatim>\<open>Number.isInteger\<close> is the
  parameter \<open>toIndex\<close>, which gives the integer that the suffix reads as, if any:
  the number syntax and the rounding of the language are not written out here.
  \<^verbatim>\<open>parts.sort((a, b) => a[0] - b[0])\<close> is a stable sort by index.
\<close>

definition startsWith :: "ustring \<Rightarrow> ustring \<Rightarrow> bool" where
  "startsWith k name = (take (length name) k = name)"

definition collect_parts ::
  "(ustring \<Rightarrow> int option) \<Rightarrow> ustring \<Rightarrow> (ustring \<times> ustring) list \<Rightarrow> (int \<times> ustring) list" where
  "collect_parts toIndex name params =
     List.map_filter
       (\<lambda>(k, v). if startsWith k name
                 then map_option (\<lambda>idx. (idx, v)) (toIndex (drop (length name) k))
                 else None)
       params"

definition joinFromParams ::
  "(ustring \<Rightarrow> int option) \<Rightarrow> ustring \<Rightarrow> (ustring \<times> ustring) list \<Rightarrow> ustring option" where
  "joinFromParams toIndex name params =
     (let single = map_of params (to_usv name)
      in if truthy single then single
         else
           let parts = collect_parts toIndex name params
           in if length parts = 0 then None
              else Some (concat (map snd (sort_key fst parts))))"

text \<open>
  For the examples, a function that agrees with \<^verbatim>\<open>Number\<close> and
  \<^verbatim>\<open>Number.isInteger\<close> on the empty string, which reads as 0, and on the decimal
  numerals below \<open>2^53\<close>, which read as themselves. It is not meant for other strings.
\<close>

definition toIndex_decimal :: "ustring \<Rightarrow> int option" where
  "toIndex_decimal s =
     (if s = [] then Some 0
      else if list_all is_digit s then Some (int (digits_value s))
      else None)"

section \<open>The snapshot store (storage/StorageManager.js)\<close>

text \<open>
  An entry of the state store, and the store as it is read from local storage: the
  version may be missing, and \<^verbatim>\<open>states\<close> is \<open>None\<close> when the stored value is not an
  array.
\<close>

record snapshot =
  snap_name :: "string option"
  snap_type :: string
  snap_md5 :: string
  snap_cfg :: string
  snap_svc :: string
  snap_ts :: int

record state_store =
  version :: "int option"
  states :: "snapshot list option"

definition CURRENT_VERSION :: int where
  "CURRENT_VERSION = 1"

text \<open>\<^verbatim>\<open>Array.prototype.findIndex\<close>, with \<open>None\<close> for \<open>-1\<close>\<close>

fun findIndex :: "('a \<Rightarrow> bool) \<Rightarrow> 'a list \<Rightarrow> nat option" where
  "findIndex P [] = None"
| "findIndex P (x # xs) = (if P x then Some 0 else map_option Suc (findIndex P xs))"

text \<open>
  \<^verbatim>\<open>upsertSnapshotByMd5\<close>. The MD5 function comes from the SparkMD5 library, which is
  not part of the sources, and is a parameter; so is the value of \<^verbatim>\<open>Date.now()\<close>.
  The list the function works on is \<^verbatim>\<open>store.states\<close> itself when that is an array,
  so the changes show in the store; otherwise it is a new array that the store never
  sees. The result is the store, the MD5 and the \<^verbatim>\<open>updated\<close> flag.
\<close>

definition upsertSnapshotByMd5 ::
  "(string \<Rightarrow> string) \<Rightarrow> int \<Rightarrow> state_store \<Rightarrow> string option \<Rightarrow> string \<Rightarrow> string \<Rightarrow> string \<Rightarrow>
   state_store \<times> string \<times> bool" where
  "upsertSnapshotByMd5 md5Hex now store name type cfg svc =
     (let md5 = md5Hex (cfg @ svc);
          list = (case states store of Some l \<Rightarrow> l | None \<Rightarrow> []);
          put = (\<lambda>l. case states store of Some _ \<Rightarrow> store\<lparr>states := Some l\<rparr> | None \<Rightarrow> store)
      in case findIndex (\<lambda>s. snap_md5 s = md5) list of
           Some idx \<Rightarrow>
             let existing = (list ! idx)\<lparr>snap_ts := now\<rparr>;
                 existing = (if truthy name then existing\<lparr>snap_name := name\<rparr> else existing)
             in if idx \<noteq> 0
                then (put (existing # (take idx list @ drop (Suc idx) list)), md5, True)
                else (put (list[idx := existing]), md5, True)
         | None \<Rightarrow>
             (put (\<lparr>snap_name = name, snap_type = type, snap_md5 = md5, snap_cfg = cfg,
                    snap_svc = svc, snap_ts = now\<rparr> # list), md5, False))"

text \<open>
  The cell of local storage under the key \<^verbatim>\<open>asd-dashboard-state\<close> holds a store, or
  nothing (also when what it holds does not parse).
\<close>

definition loadStateStore :: "state_store option \<Rightarrow> state_store" where
  "loadStateStore cell =
     (let store = (case cell of
                     None \<Rightarrow> \<lparr>version = Some CURRENT_VERSION, states = Some []\<rparr>
                   | Some s \<Rightarrow> s)
      in if version store = None then store\<lparr>version := Some CURRENT_VERSION\<rparr> else store)"

definition saveStateStore :: "state_store \<Rightarrow> state_store option" where
  "saveStateStore store = Some store"

definition saveStateSnapshot ::
  "(string \<Rightarrow> string) \<Rightarrow> int \<Rightarrow> state_store option \<Rightarrow> string option \<Rightarrow> string \<Rightarrow> string \<Rightarrow> string \<Rightarrow>
   state_store option \<times> string" where
  "saveStateSnapshot md5Hex now cell name type cfg svc =
     (let store = loadStateStore cell;
          (updated, md5, _) = upsertSnapshotByMd5 md5Hex now store name type cfg svc
      in (saveStateStore updated, md5))"

section \<open>Properties of the add locks\<close>

lemma counts_positive_new: "counts_positive (WidgetStore m)"
  by (simp add: counts_positive_def WidgetStore_def)

lemma counts_positiveD: "counts_positive s \<Longrightarrow> serviceLocks s n = Some c \<Longrightarrow> 1 \<le> c"
  by (simp add: counts_positive_def)

lemma counts_positive_lock:
  assumes "counts_positive s"
  shows "counts_positive (lock n s)"
  unfolding counts_positive_def
proof (intro allI impI)
  fix m c
  assume a: "serviceLocks (lock n s) m = Some c"
  show "1 \<le> c"
  proof (cases "m = n")
    case True
    then show ?thesis
      using a counts_positiveD [OF assms, of n]
      by (cases "serviceLocks s n") (auto simp: lock_def)
  next
    case False
    then show ?thesis
      using a counts_positiveD [OF assms, of m] by (simp add: lock_def)
  qed
qed

lemma counts_positive_unlock:
  assumes "counts_positive s"
  shows "counts_positive (unlock n s)"
  unfolding counts_positive_def
proof (intro allI impI)
  fix m c
  assume a: "serviceLocks (unlock n s) m = Some c"
  show "1 \<le> c"
  proof (cases "m = n")
    case True
    then show ?thesis
      using a counts_positiveD [OF assms, of n]
      by (cases "serviceLocks s n") (auto simp: unlock_def Let_def split: if_splits)
  next
    case False
    then show ?thesis
      using a counts_positiveD [OF assms, of m]
      by (simp add: unlock_def Let_def split: if_splits)
  qed
qed

lemma counts_positive_step: "counts_positive s \<Longrightarrow> counts_positive (lock_step c s)"
  by (cases c) (simp_all add: counts_positive_lock counts_positive_unlock)

lemma counts_positive_calls: "counts_positive s \<Longrightarrow> counts_positive (lock_calls cs s)"
  unfolding lock_calls_def
  by (induction cs arbitrary: s) (simp_all add: counts_positive_step)

lemma held_lock: "held n (lock m s) = (if m = n then held n s + 1 else held n s)"
  by (simp add: held_def lock_def split: option.splits)

lemma held_unlock:
  "counts_positive s \<Longrightarrow> 1 \<le> held n s \<or> m \<noteq> n \<Longrightarrow>
   held n (unlock m s) = (if m = n then held n s - 1 else held n s)"
  by (auto simp: held_def unlock_def Let_def counts_positive_def split: option.splits)

lemma held_calls:
  "counts_positive s \<Longrightarrow> held n s = int d \<Longrightarrow> paired n d cs \<Longrightarrow>
   held n (lock_calls cs s) = int d + int (locks_of n cs) - int (unlocks_of n cs)"
proof (induction cs arbitrary: s d)
  case Nil
  then show ?case by (simp add: lock_calls_def locks_of_def unlocks_of_def)
next
  case (Cons c cs)
  show ?case
  proof (cases c)
    case (Lock m)
    have inv: "counts_positive (lock m s)"
      using Cons.prems(1) by (rule counts_positive_lock)
    have h: "held n (lock m s) = int (if m = n then Suc d else d)"
      using Cons.prems(2) by (simp add: held_lock)
    have p: "paired n (if m = n then Suc d else d) cs"
      using Cons.prems(3) Lock by simp
    from Cons.IH [OF inv h p] show ?thesis
      using Lock by (simp add: lock_calls_def locks_of_def unlocks_of_def)
  next
    case (Unlock m)
    have inv: "counts_positive (unlock m s)"
      using Cons.prems(1) by (rule counts_positive_unlock)
    have pos: "1 \<le> held n s \<or> m \<noteq> n"
      using Cons.prems(2,3) Unlock by (auto split: if_splits)
    have h: "held n (unlock m s) = int (if m = n then d - 1 else d)"
      using held_unlock [OF Cons.prems(1) pos] Cons.prems(2,3) Unlock
      by (auto split: if_splits)
    have p: "paired n (if m = n then d - 1 else d) cs"
      using Cons.prems(3) Unlock by (simp split: if_splits)
    from Cons.IH [OF inv h p] show ?thesis
      using Unlock Cons.prems(3)
      by (auto simp: lock_calls_def locks_of_def unlocks_of_def split: if_splits)
  qed
qed

lemma held_zero_not_adding: "counts_positive s \<Longrightarrow> held n s = 0 \<Longrightarrow> \<not> isAdding n s"
  using counts_positiveD [of s n]
  by (cases "serviceLocks s n") (auto simp: held_def isAdding_def)

lemma unlock_last:
  "serviceLocks s n = Some 1 \<or> serviceLocks s n = None \<Longrightarrow> \<not> isAdding n (unlock n s)"
  by (auto simp: unlock_def isAdding_def)

text \<open>
  Claim C10, as the code has it. From a new store, after any sequence of \<^verbatim>\<open>lock\<close> and
  \<^verbatim>\<open>unlock\<close> calls every count in the lock map is at least 1, none is zero or
  negative. \<^verbatim>\<open>unlock\<close> of a name whose count is 1, or that has no entry, leaves no
  entry, so \<^verbatim>\<open>isAdding\<close> is false. After a sequence in which every \<^verbatim>\<open>unlock\<close> of a
  name releases an earlier \<^verbatim>\<open>lock\<close> of it, the count of the name is the number of its
  locks less the number of its unlocks, and with equally many of both \<^verbatim>\<open>isAdding\<close> is
  false.
\<close>

theorem lock_counts_paired:
  "(\<forall>n c. serviceLocks (lock_calls cs (WidgetStore m)) n = Some c \<longrightarrow> 1 \<le> c) \<and>
   (\<forall>s::widget_store. serviceLocks s n = Some 1 \<or> serviceLocks s n = None \<longrightarrow> \<not> isAdding n (unlock n s)) \<and>
   (paired n 0 cs \<longrightarrow>
      held n (lock_calls cs (WidgetStore m)) = int (locks_of n cs) - int (unlocks_of n cs) \<and>
      (locks_of n cs = unlocks_of n cs \<longrightarrow> \<not> isAdding n (lock_calls cs (WidgetStore m))))"
proof (intro conjI allI impI)
  fix k c
  assume "serviceLocks (lock_calls cs (WidgetStore m)) k = Some c"
  then show "1 \<le> c"
    using counts_positive_calls [OF counts_positive_new, of cs m]
    by (rule counts_positiveD [rotated])
next
  fix s :: widget_store
  assume "serviceLocks s n = Some 1 \<or> serviceLocks s n = None"
  then show "\<not> isAdding n (unlock n s)" by (rule unlock_last)
next
  assume p: "paired n 0 cs"
  have h0: "held n (WidgetStore m) = int 0"
    by (simp add: held_def WidgetStore_def)
  show h: "held n (lock_calls cs (WidgetStore m)) = int (locks_of n cs) - int (unlocks_of n cs)"
    using held_calls [OF counts_positive_new h0 p] by simp
  assume "locks_of n cs = unlocks_of n cs"
  then have "held n (lock_calls cs (WidgetStore m)) = 0"
    using h by simp
  then show "\<not> isAdding n (lock_calls cs (WidgetStore m))"
    using counts_positive_calls [OF counts_positive_new, of cs m]
    by (simp add: held_zero_not_adding)
qed

theorem lock_counts_paired_witness:
  "paired ''svc'' 0 [Lock ''svc'', Lock ''svc'', Unlock ''svc'', Unlock ''svc''] \<and>
   locks_of ''svc'' [Lock ''svc'', Lock ''svc'', Unlock ''svc'', Unlock ''svc''] =
     unlocks_of ''svc'' [Lock ''svc'', Lock ''svc'', Unlock ''svc'', Unlock ''svc''] \<and>
   \<not> isAdding ''svc''
     (lock_calls [Lock ''svc'', Lock ''svc'', Unlock ''svc'', Unlock ''svc''] (WidgetStore 10)) \<and>
   serviceLocks (lock_calls [Lock ''svc'', Lock ''svc'', Unlock ''svc''] (WidgetStore 10)) ''svc''
     = Some 1 \<and> (1::int) \<le> 1 \<and>
   \<not> isAdding ''svc''
     (unlock ''svc'' (lock_calls [Lock ''svc'', Lock ''svc'', Unlock ''svc''] (WidgetStore 10)))"
proof -
  let ?cs = "[Lock ''svc'', Lock ''svc'', Unlock ''svc'', Unlock ''svc'']"
  let ?s = "lock_calls [Lock ''svc'', Lock ''svc'', Unlock ''svc''] (WidgetStore 10)"
  have p: "paired ''svc'' 0 ?cs" by simp
  have e: "locks_of ''svc'' ?cs = unlocks_of ''svc'' ?cs"
    by (simp add: locks_of_def unlocks_of_def)
  have g: "serviceLocks ?s ''svc'' = Some 1"
    by (simp add: lock_calls_def lock_def unlock_def WidgetStore_def)
  from lock_counts_paired [of ?cs 10 "''svc''"] p e
  have a: "\<not> isAdding ''svc'' (lock_calls ?cs (WidgetStore 10))" by blast
  from lock_counts_paired [of ?cs 10 "''svc''"] g
  have b: "\<not> isAdding ''svc'' (unlock ''svc'' ?s)" by blast
  show ?thesis using p e a g b by simp
qed

text \<open>
  As claim C10 words it (equally many \<^verbatim>\<open>lock\<close> and \<^verbatim>\<open>unlock\<close> calls, in any order)
  the last part fails: an \<^verbatim>\<open>unlock\<close> that finds no entry is lost, and the
  \<^verbatim>\<open>lock\<close> after it stays held.
\<close>

theorem lock_counts_unpaired_counterexample:
  "locks_of ''svc'' [Unlock ''svc'', Lock ''svc''] = unlocks_of ''svc'' [Unlock ''svc'', Lock ''svc''] \<and>
   isAdding ''svc'' (lock_calls [Unlock ''svc'', Lock ''svc''] (WidgetStore 10))"
  by (simp add: locks_of_def unlocks_of_def lock_calls_def lock_def unlock_def isAdding_def
      WidgetStore_def)

section \<open>Properties of the widget map\<close>

lemma delete_first: "distinct (map fst ((k, v) # ws)) \<Longrightarrow> AList.delete k ((k, v) # ws) = ws"
  by simp

lemma ensureLimit_drop:
  "distinct (map fst (widgets s)) \<Longrightarrow> 0 \<le> maxSize s \<Longrightarrow>
   ensureLimit s =
     Some (s\<lparr>widgets := drop (length (widgets s) - nat (maxSize s)) (widgets s),
             evicted := evicted s @ map fst (take (length (widgets s) - nat (maxSize s)) (widgets s))\<rparr>)"
proof (induction "widgets s" arbitrary: s)
  case Nil
  then show ?case
    by (subst ensureLimit.simps) simp
next
  case (Cons a ws)
  obtain k v where a: "a = (k, v)" by (cases a)
  have ws: "widgets s = (k, v) # ws" using Cons.hyps(2) a by simp
  show ?case
  proof (cases "int (length (widgets s)) > maxSize s")
    case False
    then have "length (widgets s) - nat (maxSize s) = 0" by linarith
    then show ?thesis using False
      by (subst ensureLimit.simps) simp
  next
    case True
    let ?s1 = "s\<lparr>widgets := ws, evicted := evicted s @ [k]\<rparr>"
    have ev: "evict (oldestId s) s = ?s1"
      using ws Cons.prems(1) delete_first [of k v ws]
      by (simp add: evict_def oldestId_def)
    have d1: "distinct (map fst (widgets ?s1))" using Cons.prems(1) ws by simp
    have m1: "0 \<le> maxSize ?s1" using Cons.prems(2) by simp
    have w1: "ws = widgets ?s1" by simp
    have k: "length (widgets s) - nat (maxSize s) = Suc (length ws - nat (maxSize s))"
      using True ws Cons.prems(2) by (simp; linarith)
    have "ensureLimit s = ensureLimit ?s1"
      using True ev by (subst ensureLimit.simps) simp
    also have "\<dots> = Some (?s1\<lparr>widgets := drop (length ws - nat (maxSize s)) ws,
         evicted := evicted ?s1 @ map fst (take (length ws - nat (maxSize s)) ws)\<rparr>)"
      using Cons.hyps(1) [OF w1 d1 m1] by simp
    finally show ?thesis
      using k ws by simp
  qed
qed

lemma update_fresh: "k \<notin> fst ` set al \<Longrightarrow> AList.update k v al = al @ [(k, v)]"
  by (induction al) auto

lemma has_keys: "has i s \<longleftrightarrow> i \<in> fst ` set (widgets s)"
  by (simp add: has_def map_of_eq_None_iff)

lemma add_moves_to_end:
  "AList.update i el (if has i s then AList.delete i (widgets s) else widgets s) =
   AList.delete i (widgets s) @ [(i, el)]"
  by (simp add: has_keys update_fresh AList.delete_notin_dom)

lemma add_drop:
  assumes "distinct (map fst (widgets s))" "0 \<le> maxSize s" "dataid el = Some i" "i \<noteq> []"
  shows "add el s =
     (let ws = AList.delete i (widgets s) @ [(i, el)]; k = length ws - nat (maxSize s)
      in Some (s\<lparr>widgets := drop k ws, evicted := evicted s @ map fst (take k ws)\<rparr>))"
proof -
  let ?ws = "AList.delete i (widgets s) @ [(i, el)]"
  let ?s1 = "s\<lparr>widgets := ?ws\<rparr>"
  have d: "distinct (map fst (widgets ?s1))"
    using assms(1) by (simp add: AList.distinct_delete AList.delete_notin_dom)
  have "add el s = ensureLimit ?s1"
    using assms(3,4) by (simp add: add_def add_moves_to_end)
  then show ?thesis
    using ensureLimit_drop [OF d] assms(2) by (simp add: Let_def)
qed


lemma length_delete_less:
  "i \<in> fst ` set ws \<Longrightarrow> length (AList.delete i ws) < length ws"
  by (induction ws) (force simp: less_Suc_eq_le AList.length_delete_le)+

lemma get_moves_to_end:
  "map_of (widgets s) i = Some e \<Longrightarrow>
   get i s = (Some e, s\<lparr>widgets := AList.delete i (widgets s) @ [(i, e)]\<rparr>)"
  by (simp add: get_def has_def Let_def update_fresh AList.delete_notin_dom)

lemma get_absent: "map_of (widgets s) i = None \<Longrightarrow> get i s = (None, s)"
  by (simp add: get_def has_def)

lemma store_ok_get: "store_ok m s \<Longrightarrow> store_ok m (snd (get i s))"
proof (cases "map_of (widgets s) i")
  case None
  assume "store_ok m s"
  then show ?thesis using None by (simp add: get_absent)
next
  case (Some e)
  assume ok: "store_ok m s"
  have "i \<in> fst ` set (widgets s)"
    using Some by (metis map_of_eq_None_iff option.distinct(1))
  then have "length (AList.delete i (widgets s)) < length (widgets s)"
    by (rule length_delete_less)
  then show ?thesis
    using ok Some
    by (simp add: get_moves_to_end store_ok_def AList.distinct_delete AList.delete_notin_dom)
qed

lemma length_update_present:
  "map_of ws i = Some e \<Longrightarrow> length (AList.update i v ws) = length ws"
  by (induction ws) (auto split: if_splits)

lemma keys_update_present:
  "map_of ws i = Some e \<Longrightarrow> map fst (AList.update i v ws) = map fst ws"
  by (induction ws) (auto split: if_splits)

lemma store_ok_set_present:
  "store_ok m s \<Longrightarrow> map_of (widgets s) i = Some e \<Longrightarrow>
   store_ok m (s\<lparr>widgets := AList.update i v (widgets s)\<rparr>)"
  by (simp add: store_ok_def length_update_present keys_update_present)

lemma store_ok_hide: "store_ok m s \<Longrightarrow> store_ok m (hide i s)"
  by (cases "map_of (widgets s) i") (simp_all add: hide_def store_ok_set_present)

lemma store_ok_show:
  assumes "store_ok m s"
  shows "store_ok m (show i s)"
proof (cases "map_of (widgets s) i")
  case None
  then show ?thesis using assms by (simp add: show_def get_absent)
next
  case (Some e)
  let ?s1 = "s\<lparr>widgets := AList.delete i (widgets s) @ [(i, e)]\<rparr>"
  have ok1: "store_ok m ?s1"
    using store_ok_get [OF assms, of i] Some by (simp add: get_moves_to_end)
  have m1: "map_of (widgets ?s1) i = Some e"
    by (simp add: map_add_def AList.delete_conv')
  show ?thesis
    using store_ok_set_present [OF ok1 m1] Some by (simp add: show_def get_moves_to_end)
qed

lemma store_ok_add:
  assumes "store_ok m s" "0 \<le> m"
  shows "\<exists>s'. add e s = Some s' \<and> store_ok m s'"
proof (cases "dataid e")
  case None
  then show ?thesis using assms by (simp add: add_def)
next
  case (Some i)
  show ?thesis
  proof (cases "i = []")
    case True
    then show ?thesis using assms Some by (simp add: add_def)
  next
    case False
    have d: "distinct (map fst (widgets s))" and ms: "0 \<le> maxSize s"
      using assms by (simp_all add: store_ok_def)
    define ws where "ws = AList.delete i (widgets s) @ [(i, e)]"
    define k where "k = length ws - nat m"
    define s' where "s' = s\<lparr>widgets := drop k ws, evicted := evicted s @ map fst (take k ws)\<rparr>"
    have dw: "distinct (map fst ws)"
      using d by (simp add: ws_def AList.distinct_delete AList.delete_notin_dom)
    have "distinct (drop k (map fst ws))"
      using dw by (rule distinct_drop)
    then have dd: "distinct (map fst (drop k ws))"
      by (simp only: drop_map)
    have len: "int (length (drop k ws)) \<le> m"
      using assms(2) by (simp add: k_def)
    have "add e s = Some s'"
      using add_drop [OF d ms Some False] assms(1)
      by (simp add: Let_def store_ok_def ws_def k_def s'_def)
    moreover have "store_ok m s'"
      using assms(1) dd len by (simp add: store_ok_def s'_def)
    ultimately show ?thesis by blast
  qed
qed

lemma store_ok_call:
  "store_ok m s \<Longrightarrow> 0 \<le> m \<Longrightarrow> \<exists>s'. call c s = Some s' \<and> store_ok m s'"
  by (cases c) (simp_all add: store_ok_add store_ok_get store_ok_show store_ok_hide)

lemma store_ok_calls:
  "store_ok m s \<Longrightarrow> 0 \<le> m \<Longrightarrow> \<exists>s'. calls cs s = Some s' \<and> store_ok m s'"
proof (induction cs arbitrary: s)
  case Nil
  then show ?case by simp
next
  case (Cons c cs)
  from store_ok_call [OF Cons.prems, of c] obtain s1
    where s1: "call c s = Some s1" "store_ok m s1" by blast
  from Cons.IH [OF s1(2) Cons.prems(2)] show ?case using s1(1) by simp
qed

lemma store_ok_new: "0 \<le> m \<Longrightarrow> store_ok m (WidgetStore m)"
  by (simp add: store_ok_def WidgetStore_def)

text \<open>
  Claim C3. From a new store with a capacity \<^verbatim>\<open>maxSize\<close> that is not negative, every
  sequence of \<^verbatim>\<open>add\<close>, \<^verbatim>\<open>get\<close>, \<^verbatim>\<open>show\<close> and \<^verbatim>\<open>hide\<close> calls returns, and
  afterwards (so after each \<^verbatim>\<open>add\<close> of the sequence) the map holds at most
  \<^verbatim>\<open>maxSize\<close> entries. A further \<^verbatim>\<open>add\<close> of an element with an id puts the id last
  in the insertion order, also when the id was in the map already, and what it then
  evicts are the entries at the front of that order, as many as exceed the capacity.
  \<^verbatim>\<open>get\<close> of a stored id moves it last as well.
\<close>

theorem store_capacity_lru:
  assumes "0 \<le> m"
  shows "\<exists>s. calls cs (WidgetStore m) = Some s \<and> maxSize s = m \<and>
           int (length (widgets s)) \<le> maxSize s \<and>
           (\<forall>e i. dataid e = Some i \<and> i \<noteq> [] \<longrightarrow>
              (let ws = AList.delete i (widgets s) @ [(i, e)]; k = length ws - nat m
               in add e s = Some (s\<lparr>widgets := drop k ws,
                                     evicted := evicted s @ map fst (take k ws)\<rparr>))) \<and>
           (\<forall>e i. map_of (widgets s) i = Some e \<longrightarrow>
              widgets (snd (get i s)) = AList.delete i (widgets s) @ [(i, e)])"
proof -
  from store_ok_calls [OF store_ok_new [OF assms] assms, of cs] obtain s
    where s: "calls cs (WidgetStore m) = Some s" "store_ok m s" by blast
  have d: "distinct (map fst (widgets s))" and ms: "0 \<le> maxSize s" and mm: "maxSize s = m"
    using s(2) assms by (simp_all add: store_ok_def)
  have a: "\<forall>e i. dataid e = Some i \<and> i \<noteq> [] \<longrightarrow>
              (let ws = AList.delete i (widgets s) @ [(i, e)]; k = length ws - nat m
               in add e s = Some (s\<lparr>widgets := drop k ws,
                                     evicted := evicted s @ map fst (take k ws)\<rparr>))"
    using add_drop [OF d ms] mm by simp
  have g: "\<forall>e i. map_of (widgets s) i = Some e \<longrightarrow>
              widgets (snd (get i s)) = AList.delete i (widgets s) @ [(i, e)]"
    by (simp add: get_moves_to_end)
  show ?thesis
    using s a g by (simp add: store_ok_def)
qed


theorem store_capacity_lru_witness:
  "(0::int) \<le> 2 \<and>
   (\<exists>s. calls [Add \<lparr>dataid = Some ''a'', service = None, display = []\<rparr>,
                Add \<lparr>dataid = Some ''b'', service = None, display = []\<rparr>,
                Get ''a'',
                Add \<lparr>dataid = Some ''c'', service = None, display = []\<rparr>] (WidgetStore 2) = Some s \<and>
        map fst (widgets s) = [''a'', ''c''] \<and> evicted s = [''b''] \<and>
        int (length (widgets s)) \<le> maxSize s)"
proof -
  let ?cs = "[Add \<lparr>dataid = Some ''a'', service = None, display = []\<rparr>,
              Add \<lparr>dataid = Some ''b'', service = None, display = []\<rparr>,
              Get ''a'',
              Add \<lparr>dataid = Some ''c'', service = None, display = []\<rparr>]"
  have h: "(0::int) \<le> 2" by simp
  from store_capacity_lru [OF h, of ?cs] obtain s
    where s: "calls ?cs (WidgetStore 2) = Some s" "int (length (widgets s)) \<le> maxSize s"
    by blast
  have "map_option (\<lambda>s. (map fst (widgets s), evicted s)) (calls ?cs (WidgetStore 2)) =
        Some ([''a'', ''c''], [''b''])"
    by code_simp
  then have "map fst (widgets s) = [''a'', ''c''] \<and> evicted s = [''b'']"
    using s(1) by simp
  then show ?thesis using s by auto
qed

section \<open>Properties of the instance limit\<close>

lemma spec_count_le_effectiveCount:
  "spec_effectiveCount s boards serviceName serviceId \<le> effectiveCount s boards serviceName"
proof -
  let ?ws = "concat (map widgetState (concat (map views boards)))"
  have "set (filter truthy (map w_dataid (filter (\<lambda>w. w_serviceId w = serviceId) ?ws)))
      \<subseteq> set (persistedDataIds boards)"
    by (auto simp: persistedDataIds_def)
  then have "set (liveDataIds s serviceName @
        filter truthy (map w_dataid (filter (\<lambda>w. w_serviceId w = serviceId) ?ws)))
      \<subseteq> set (liveDataIds s serviceName @ persistedDataIds boards)"
    by auto
  then have "card (set (liveDataIds s serviceName @
        filter truthy (map w_dataid (filter (\<lambda>w. w_serviceId w = serviceId) ?ws))))
      \<le> card (set (liveDataIds s serviceName @ persistedDataIds boards))"
    by (rule card_mono [OF finite_set])
  then show ?thesis
    by (simp only: spec_effectiveCount_def effectiveCount_def allIds_def length_rev
        length_remdups_card_conv set_rev)
qed

text \<open>
  Claim C1. The dashboard has the services A, limited to one instance, and B, and the
  one widget W1, of service B, which is live and persisted. No widget is of service
  A, so the count of the instances of A is 0, below the limit. \<^verbatim>\<open>addWidget\<close> for A
  counts W1, whose persisted entry it does not test for the service: its count is 1
  and it takes the limit for reached.
\<close>

theorem addWidget_counts_other_services:
  "(let s = \<lparr>maxSize = 10,
             widgets = [(''W1'', \<lparr>dataid = Some ''W1'', service = Some ''B'', display = ''''\<rparr>)],
             serviceLocks = Map.empty, evicted = []\<rparr>;
        boards = [\<lparr>board_id = Some (ascii ''b1''), board_name = Some (ascii ''Board''),
                   views = [\<lparr>view_id = ''v1'', view_name = ''View'',
                             widgetState = [\<lparr>w_dataid = Some ''W1'', w_serviceId = Some ''svc-b'',
                                              w_url = ''http://b/'', w_columns = Some 1,
                                              w_rows = Some 1, w_type = Some ''iframe'',
                                              w_order = Some ''0''\<rparr>]\<rparr>]\<rparr>]
    in liveDataIds s (Some ''A'') = [] \<and>
       persistedDataIds boards = [Some ''W1''] \<and>
       spec_effectiveCount s boards (Some ''A'') (Some ''svc-a'') = 0 \<and>
       effectiveCount s boards (Some ''A'') = 1 \<and>
       limit_reached s boards (Some ''A'') (Some 1) None)"
proof -
  let ?s = "\<lparr>maxSize = 10,
             widgets = [(''W1'', \<lparr>dataid = Some ''W1'', service = Some ''B'', display = ''''\<rparr>)],
             serviceLocks = Map.empty, evicted = []\<rparr>"
  let ?boards = "[\<lparr>board_id = Some (ascii ''b1''), board_name = Some (ascii ''Board''),
                   views = [\<lparr>view_id = ''v1'', view_name = ''View'',
                             widgetState = [\<lparr>w_dataid = Some ''W1'', w_serviceId = Some ''svc-b'',
                                              w_url = ''http://b/'', w_columns = Some 1,
                                              w_rows = Some 1, w_type = Some ''iframe'',
                                              w_order = Some ''0''\<rparr>]\<rparr>]\<rparr>]"
  have live: "liveDataIds ?s (Some ''A'') = []"
    by (simp add: liveDataIds_def)
  have pers: "persistedDataIds ?boards = [Some ''W1'']"
    by (simp add: persistedDataIds_def truthy_def)
  have spec: "spec_effectiveCount ?s ?boards (Some ''A'') (Some ''svc-a'') = 0"
    by (simp add: spec_effectiveCount_def live)
  have eff: "effectiveCount ?s ?boards (Some ''A'') = 1"
    by (simp add: effectiveCount_def allIds_def live pers)
  have lim: "limit_reached ?s ?boards (Some ''A'') (Some 1) None"
    by (simp add: limit_reached_def alreadyExists_def truthy_def eff)
  show ?thesis
    unfolding Let_def by (intro conjI) (rule live pers spec eff lim)+
qed

section \<open>Properties of the eviction selection\<close>










text \<open>
  The hypothesis on the ids is used. With a required count of 1, \<^verbatim>\<open>toggle('')\<close> and
  then \<^verbatim>\<open>toggle('a')\<close>: the second call shifts the empty id out of \<^verbatim>\<open>selectedOrder\<close>
  and returns it, but \<^verbatim>\<open>if (removed)\<close> takes the empty string for no id and leaves it
  in \<^verbatim>\<open>selectedIds\<close>.
\<close>

lemma toggle_empty_id_kept:
  "selectedIds (toggles (Some 1) ['''', ''a'']) = ['''', ''a''] \<and>
   int (length (selectedIds (toggles (Some 1) ['''', ''a'']))) > 1 \<and>
   fst (toggle (selectionLimit (Some 1)) ''a'' (toggles (Some 1) [''''])) = Some ''''"
  by (simp add: toggles_def toggle_def selectionLimit_def initial_state_def update_def
      set_add_def set_delete_def)

section \<open>Properties of deduplication and merging\<close>

lemma dropWhile_all_iff: "(\<forall>x \<in> set (dropWhile P s). P x) \<longleftrightarrow> (\<forall>x \<in> set s. P x)"
  by (induction s) auto

lemma trim_empty_iff: "trim s = [] \<longleftrightarrow> list_all is_white_space s"
  by (simp add: trim_def dropWhile_eq_Nil_conv list_all_iff dropWhile_all_iff)

lemma norm_blank:
  assumes "lc [] = []" "blank_name n"
  shows "norm lc n = []"
proof -
  have "trim (case n of None \<Rightarrow> [] | Some s \<Rightarrow> s) = []"
    using assms(2) by (cases n) (simp_all add: trim_empty_iff blank_name_def)
  then show ?thesis using assms(1) by (simp add: norm_def)
qed

lemma id_seen_ids_of:
  "id_seen (getId x) (ids_of getId kept) \<longleftrightarrow> (\<exists>y \<in> set kept. truthy (getId x) \<and> getId y = getId x)"
  by (cases "getId x") (force simp: id_seen_def ids_of_def truthy_def image_iff)+

lemma name_seen_names_of:
  "name_seen (norm lc (getName x)) (names_of lc getName kept) \<longleftrightarrow>
   (\<exists>y \<in> set kept. norm lc (getName x) \<noteq> [] \<and> norm lc (getName y) = norm lc (getName x))"
  unfolding name_seen_def names_of_def by (auto simp: image_iff) metis+

lemma seen_before_sets:
  "id_seen (getId x) (ids_of getId kept) \<or> name_seen (norm lc (getName x)) (names_of lc getName kept)
   \<longleftrightarrow> seen_before lc getId getName kept x"
  unfolding id_seen_ids_of name_seen_names_of seen_before_def ..

lemma ids_of_snoc: "add_id (getId x) (ids_of getId kept) = ids_of getId (kept @ [x])"
  by (cases "getId x") (auto simp: add_id_def ids_of_def)

lemma names_of_snoc:
  "add_name (norm lc (getName x)) (names_of lc getName kept) = names_of lc getName (kept @ [x])"
  by (auto simp: add_name_def names_of_def)

lemma dedup_loop_snoc:
  "dedup_loop lc getId getName (ids_of getId out) (names_of lc getName out) out (xs @ [x]) =
     (let kept = dedup_loop lc getId getName (ids_of getId out) (names_of lc getName out) out xs
      in if seen_before lc getId getName kept x then kept else kept @ [x])"
proof (induction xs arbitrary: out)
  case Nil
  show ?case
    using seen_before_sets [of getId x out lc getName] by (simp add: Let_def)
next
  case (Cons a xs)
  show ?case
  proof (cases "seen_before lc getId getName out a")
    case True
    then show ?thesis
      using Cons.IH [of out] seen_before_sets [of getId a out lc getName]
      by (simp add: Let_def)
  next
    case False
    then show ?thesis
      using Cons.IH [of "out @ [a]"] seen_before_sets [of getId a out lc getName]
      by (simp add: Let_def ids_of_snoc names_of_snoc)
  qed
qed

lemma ids_of_Nil: "ids_of getId [] = {}"
  by (simp add: ids_of_def)

lemma names_of_Nil: "names_of lc getName [] = {}"
  by (simp add: names_of_def)

lemma snapshotDedup_snoc:
  "snapshotDedup lc (xs @ [x]) getId getName =
     (let kept = snapshotDedup lc xs getId getName
      in if seen_before lc getId getName kept x then kept else kept @ [x])"
  using dedup_loop_snoc [of lc getId getName "[]" xs x]
  by (simp add: snapshotDedup_def ids_of_Nil names_of_Nil)

text \<open>
  Claim C7, as the code has it. \<^verbatim>\<open>mergeBoards\<close> and \<^verbatim>\<open>mergeServices\<close> deduplicate the
  concatenation of the existing and the incoming list, by board id and by service
  id-or-url. Going through the list in order, an item is dropped exactly when an
  earlier kept item has the same id and that id is not empty, or has the same
  trimmed, lower-cased name and that name is not empty; otherwise it is kept, after
  the items kept before it. This holds whatever \<^verbatim>\<open>toLowerCase\<close> does.
\<close>

theorem merge_dedup_first_occurrence:
  "mergeBoards toLowerCase existingBoards newBoards =
     snapshotDedup toLowerCase (existingBoards @ newBoards) board_id board_name \<and>
   mergeServices toLowerCase existingServices newServices =
     snapshotDedup toLowerCase (existingServices @ newServices)
       (\<lambda>s. if truthy (service_id s) then service_id s else service_url s) service_name \<and>
   snapshotDedup toLowerCase [] getId getName = [] \<and>
   snapshotDedup toLowerCase (xs @ [x]) getId getName =
     (let kept = snapshotDedup toLowerCase xs getId getName
      in if (\<exists>y \<in> set kept. truthy (getId x) \<and> getId y = getId x) \<or>
            (\<exists>y \<in> set kept. norm toLowerCase (getName x) \<noteq> [] \<and>
               norm toLowerCase (getName y) = norm toLowerCase (getName x))
         then kept else kept @ [x])"
proof -
  have "service_key = (\<lambda>s. if truthy (service_id s) then service_id s else service_url s)"
    by (rule ext) (simp add: service_key_def)
  then show ?thesis
    using snapshotDedup_snoc [of toLowerCase xs x getId getName]
    by (simp add: mergeBoards_def mergeServices_def seen_before_def)
      (simp add: snapshotDedup_def)
qed

theorem merge_dedup_first_occurrence_witness:
  "mergeBoards toLowerCase_latin1
      [\<lparr>board_id = Some (ascii ''b1''), board_name = Some (ascii ''Work''), views = []\<rparr>]
      [\<lparr>board_id = Some (ascii ''b1''), board_name = Some (ascii ''Work-renamed''), views = []\<rparr>]
     = [\<lparr>board_id = Some (ascii ''b1''), board_name = Some (ascii ''Work''), views = []\<rparr>] \<and>
   mergeBoards toLowerCase_latin1
      [\<lparr>board_id = Some (ascii ''b1''), board_name = Some (ascii ''X''), views = []\<rparr>]
      [\<lparr>board_id = Some (ascii ''b2''), board_name = Some (ascii '' x ''), views = []\<rparr>]
     = [\<lparr>board_id = Some (ascii ''b1''), board_name = Some (ascii ''X''), views = []\<rparr>] \<and>
   mergeBoards toLowerCase_latin1
      [\<lparr>board_id = Some (ascii ''b1''), board_name = Some (ascii ''X''), views = []\<rparr>]
      [\<lparr>board_id = Some (ascii ''b2''), board_name = Some (ascii ''Y''), views = []\<rparr>]
     = [\<lparr>board_id = Some (ascii ''b1''), board_name = Some (ascii ''X''), views = []\<rparr>,
        \<lparr>board_id = Some (ascii ''b2''), board_name = Some (ascii ''Y''), views = []\<rparr>]"
proof -
  let ?lc = toLowerCase_latin1
  let ?b1 = "\<lparr>board_id = Some (ascii ''b1''), board_name = Some (ascii ''Work''), views = []\<rparr>"
  let ?b1' = "\<lparr>board_id = Some (ascii ''b1''), board_name = Some (ascii ''Work-renamed''), views = []\<rparr>"
  let ?x1 = "\<lparr>board_id = Some (ascii ''b1''), board_name = Some (ascii ''X''), views = []\<rparr>"
  let ?x2 = "\<lparr>board_id = Some (ascii ''b2''), board_name = Some (ascii '' x ''), views = []\<rparr>"
  let ?y2 = "\<lparr>board_id = Some (ascii ''b2''), board_name = Some (ascii ''Y''), views = []\<rparr>"
  have one: "snapshotDedup ?lc [b] board_id board_name = [b]" for b :: board
    by (cases "board_id b") (simp_all add: snapshotDedup_def id_seen_def name_seen_def Let_def)
  have nx: "norm ?lc (Some (ascii ''X'')) = ascii ''x''" "norm ?lc (Some (ascii '' x '')) = ascii ''x''"
    "norm ?lc (Some (ascii ''Y'')) = ascii ''y''"
    by (simp_all add: norm_def toLowerCase_latin1_def trim_def is_white_space_def ascii_def)
  have ids: "ascii ''b1'' \<noteq> ascii ''b2''" "ascii ''b1'' \<noteq> []" "ascii ''b2'' \<noteq> []"
    "ascii ''x'' \<noteq> ascii ''y''" "ascii ''x'' \<noteq> []" "ascii ''y'' \<noteq> []"
    by (simp_all add: ascii_def)
  have a: "mergeBoards ?lc [?b1] [?b1'] = [?b1]"
    using merge_dedup_first_occurrence [of ?lc "[?b1]" "[?b1']" _ _ board_id board_name "[?b1]" ?b1']
    by (simp add: one truthy_def ids)
  have b: "mergeBoards ?lc [?x1] [?x2] = [?x1]"
    using merge_dedup_first_occurrence [of ?lc "[?x1]" "[?x2]" _ _ board_id board_name "[?x1]" ?x2]
    by (simp add: one truthy_def nx ids)
  have c: "mergeBoards ?lc [?x1] [?y2] = [?x1, ?y2]"
    using merge_dedup_first_occurrence [of ?lc "[?x1]" "[?y2]" _ _ board_id board_name "[?x1]" ?y2]
    by (simp add: one truthy_def nx ids)
  show ?thesis using a b c by simp
qed

text \<open>
  As claim C7 words it, two items with the same id keep only the first. Two boards
  whose id is the empty string have the same id, and both are kept: an empty id is
  never put into the set of seen ids.
\<close>

theorem merge_same_empty_id_counterexample:
  "board_id \<lparr>board_id = Some [], board_name = Some (ascii ''A''), views = []\<rparr> =
     board_id \<lparr>board_id = Some [], board_name = Some (ascii ''B''), views = []\<rparr> \<and>
   mergeBoards toLowerCase_latin1
      [\<lparr>board_id = Some [], board_name = Some (ascii ''A''), views = []\<rparr>]
      [\<lparr>board_id = Some [], board_name = Some (ascii ''B''), views = []\<rparr>]
     = [\<lparr>board_id = Some [], board_name = Some (ascii ''A''), views = []\<rparr>,
        \<lparr>board_id = Some [], board_name = Some (ascii ''B''), views = []\<rparr>]"
  by (simp add: mergeBoards_def snapshotDedup_def Let_def id_seen_def name_seen_def add_id_def
      add_name_def norm_def toLowerCase_latin1_def trim_def is_white_space_def ascii_def)

lemma anonymous_not_seen:
  "lc [] = [] \<Longrightarrow> anonymous getId getName x \<Longrightarrow>
   \<not> id_seen (getId x) seenIds \<and> \<not> name_seen (norm lc (getName x)) seenNames \<and>
   add_id (getId x) seenIds = seenIds \<and> add_name (norm lc (getName x)) seenNames = seenNames"
  using norm_blank [where lc = lc and n = "getName x"]
  by (cases "getId x")
    (auto simp: anonymous_def truthy_def id_seen_def name_seen_def add_id_def add_name_def)

lemma dedup_loop_keeps_anonymous:
  assumes "lc [] = []"
  shows "filter (anonymous getId getName) (dedup_loop lc getId getName seenIds seenNames out items) =
   filter (anonymous getId getName) out @ filter (anonymous getId getName) items"
proof (induction items arbitrary: seenIds seenNames out)
  case Nil
  show ?case by simp
next
  case (Cons a items)
  show ?case
  proof (cases "anonymous getId getName a")
    case True
    then show ?thesis
      using Cons.IH anonymous_not_seen [where lc = lc, OF assms True] by (simp add: Let_def)
  next
    case False
    then show ?thesis
      using Cons.IH by (simp add: Let_def)
  qed
qed

lemma dedup_loop_ignores_anonymous:
  assumes "lc [] = []"
  shows "filter (\<lambda>x. \<not> anonymous getId getName x)
     (dedup_loop lc getId getName seenIds seenNames out items) =
   dedup_loop lc getId getName seenIds seenNames
     (filter (\<lambda>x. \<not> anonymous getId getName x) out)
     (filter (\<lambda>x. \<not> anonymous getId getName x) items)"
proof (induction items arbitrary: seenIds seenNames out)
  case Nil
  show ?case by simp
next
  case (Cons a items)
  show ?case
  proof (cases "anonymous getId getName a")
    case True
    then show ?thesis
      using Cons.IH anonymous_not_seen [where lc = lc, OF assms True] by (simp add: Let_def)
  next
    case False
    then show ?thesis
      using Cons.IH by (simp add: Let_def)
  qed
qed

text \<open>
  Claim C9. An item whose id is undefined or empty and whose name is undefined, empty
  or white space only is never dropped by \<^verbatim>\<open>snapshotDedup\<close>: the items of this kind
  come out as they went in, each as often as it occurs and in the same order; and
  they take no part in the deduplication of the other items, whose result is the
  same with or without them. The same holds of \<^verbatim>\<open>mergeBoards\<close> and
  \<^verbatim>\<open>mergeServices\<close>. White space is what \<^verbatim>\<open>trim\<close> strips; of \<^verbatim>\<open>toLowerCase\<close> the
  proof uses only that it leaves the empty string empty.
\<close>

theorem dedup_keeps_anonymous_items:
  assumes "toLowerCase [] = []"
  shows
  "filter (anonymous getId getName) (snapshotDedup toLowerCase items getId getName) =
     filter (anonymous getId getName) items \<and>
   (\<forall>x \<in> set items. anonymous getId getName x \<longrightarrow>
      x \<in> set (snapshotDedup toLowerCase items getId getName)) \<and>
   filter (\<lambda>x. \<not> anonymous getId getName x) (snapshotDedup toLowerCase items getId getName) =
     snapshotDedup toLowerCase (filter (\<lambda>x. \<not> anonymous getId getName x) items) getId getName \<and>
   filter (anonymous board_id board_name) (mergeBoards toLowerCase existingBoards newBoards) =
     filter (anonymous board_id board_name) (existingBoards @ newBoards) \<and>
   filter (anonymous service_key service_name)
       (mergeServices toLowerCase existingServices newServices) =
     filter (anonymous service_key service_name) (existingServices @ newServices)"
proof -
  have k: "filter (anonymous g h) (snapshotDedup toLowerCase xs g h) = filter (anonymous g h) xs"
    for g h :: "'b \<Rightarrow> ustring option" and xs
    by (simp add: snapshotDedup_def dedup_loop_keeps_anonymous [where lc = toLowerCase, OF assms])
  have m: "\<forall>x \<in> set items. anonymous getId getName x \<longrightarrow>
      x \<in> set (snapshotDedup toLowerCase items getId getName)"
  proof (intro ballI impI)
    fix x assume "x \<in> set items" "anonymous getId getName x"
    then have "x \<in> set (filter (anonymous getId getName) items)" by simp
    then have "x \<in> set (filter (anonymous getId getName)
        (snapshotDedup toLowerCase items getId getName))"
      by (simp only: k)
    then show "x \<in> set (snapshotDedup toLowerCase items getId getName)" by simp
  qed
  show ?thesis
    using m by (simp add: k mergeBoards_def mergeServices_def)
      (simp add: snapshotDedup_def dedup_loop_ignores_anonymous [where lc = toLowerCase, OF assms])
qed

theorem dedup_keeps_anonymous_items_witness:
  "toLowerCase_latin1 [] = [] \<and>
   anonymous board_id board_name \<lparr>board_id = None, board_name = Some [160, 32, 8232], views = []\<rparr> \<and>
   snapshotDedup toLowerCase_latin1
     [\<lparr>board_id = None, board_name = Some [160, 32, 8232], views = []\<rparr>,
      \<lparr>board_id = Some (ascii ''b1''), board_name = Some (ascii ''Work''), views = []\<rparr>,
      \<lparr>board_id = None, board_name = Some [160, 32, 8232], views = []\<rparr>,
      \<lparr>board_id = Some (ascii ''b1''), board_name = Some (ascii ''Other''), views = []\<rparr>]
     board_id board_name =
     [\<lparr>board_id = None, board_name = Some [160, 32, 8232], views = []\<rparr>,
      \<lparr>board_id = Some (ascii ''b1''), board_name = Some (ascii ''Work''), views = []\<rparr>,
      \<lparr>board_id = None, board_name = Some [160, 32, 8232], views = []\<rparr>] \<and>
   \<lparr>board_id = None, board_name = Some [160, 32, 8232], views = []\<rparr> \<in> set (snapshotDedup
     toLowerCase_latin1
     [\<lparr>board_id = None, board_name = Some [160, 32, 8232], views = []\<rparr>,
      \<lparr>board_id = Some (ascii ''b1''), board_name = Some (ascii ''Work''), views = []\<rparr>,
      \<lparr>board_id = None, board_name = Some [160, 32, 8232], views = []\<rparr>,
      \<lparr>board_id = Some (ascii ''b1''), board_name = Some (ascii ''Other''), views = []\<rparr>]
     board_id board_name)"
proof -
  let ?a = "\<lparr>board_id = None, board_name = Some [160, 32, 8232], views = []\<rparr>"
  let ?items = "[?a, \<lparr>board_id = Some (ascii ''b1''), board_name = Some (ascii ''Work''), views = []\<rparr>, ?a,
      \<lparr>board_id = Some (ascii ''b1''), board_name = Some (ascii ''Other''), views = []\<rparr>]"
  have h: "toLowerCase_latin1 [] = []" by (simp add: toLowerCase_latin1_def)
  have an: "anonymous board_id board_name ?a"
    by (simp add: anonymous_def truthy_def blank_name_def is_white_space_def)
  have ev: "snapshotDedup toLowerCase_latin1 ?items board_id board_name =
     [?a, \<lparr>board_id = Some (ascii ''b1''), board_name = Some (ascii ''Work''), views = []\<rparr>, ?a]"
    by (simp add: snapshotDedup_def Let_def id_seen_def name_seen_def add_id_def
        add_name_def norm_def toLowerCase_latin1_def trim_def is_white_space_def ascii_def)
  have "?a \<in> set (snapshotDedup toLowerCase_latin1 ?items board_id board_name)"
    using dedup_keeps_anonymous_items [where toLowerCase = toLowerCase_latin1, OF h, of board_id board_name ?items] an by simp
  then show ?thesis using h an ev by simp
qed

section \<open>Properties of the chunker\<close>

lemma decimal_nonempty: "decimal n \<noteq> []"
  by (subst decimal.simps) simp

lemma decimal_digits: "list_all is_digit (decimal n)"
proof (induction n rule: decimal.induct)
  case (1 n)
  have d: "is_digit (48 + n mod 10)" "n < 10 \<Longrightarrow> is_digit (48 + n)"
    by (simp_all add: is_digit_def)
  show ?case
    using 1 d by (subst decimal.simps) simp
qed

lemma decimal_value: "digits_value (decimal n) = n"
proof (induction n rule: decimal.induct)
  case (1 n)
  show ?case
    using 1 by (subst decimal.simps) (simp add: digits_value_def)
qed

lemma decimal_inj: "decimal m = decimal n \<Longrightarrow> m = n"
  by (metis decimal_value)

lemma upt_add_Suc: "[i ..< Suc (i + n)] = i # [Suc i ..< Suc (i + n)]"
  by (simp add: upt_conv_Cons del: upt_Suc)

lemma split_loop_chunks:
  "0 < maxLen \<Longrightarrow>
   \<exists>ps. split_loop name data maxLen off i out = Some (out @ ps) \<and>
        map fst ps = map (\<lambda>j. name @ decimal j) [i ..< i + length ps] \<and>
        concat (map snd ps) = drop off data \<and> length ps \<le> length data - off"
proof (induction "length data - off" arbitrary: off i out rule: less_induct)
  case less
  show ?case
  proof (cases "off < length data")
    case False
    then have "split_loop name data maxLen off i out = Some (out @ [])"
      by (subst split_loop.simps) simp
    then show ?thesis using False by force
  next
    case True
    let ?c = "(name @ decimal i, take maxLen (drop off data))"
    have m: "length data - (off + maxLen) < length data - off"
      using True less.prems by linarith
    from less.hyps [OF m less.prems, of "Suc i" "out @ [?c]"] obtain ps
      where ps: "split_loop name data maxLen (off + maxLen) (Suc i) (out @ [?c]) = Some ((out @ [?c]) @ ps)"
        "map fst ps = map (\<lambda>j. name @ decimal j) [Suc i ..< Suc i + length ps]"
        "concat (map snd ps) = drop (off + maxLen) data"
        "length ps \<le> length data - (off + maxLen)"
      by blast
    have 1: "split_loop name data maxLen off i out = Some (out @ (?c # ps))"
      using True ps(1) by (subst split_loop.simps) simp
    have 2: "map fst (?c # ps) = map (\<lambda>j. name @ decimal j) [i ..< i + length (?c # ps)]"
      using ps(2) by (simp add: upt_add_Suc del: upt_Suc)
    have "take maxLen (drop off data) @ drop maxLen (drop off data) = drop off data"
      by (rule append_take_drop_id)
    then have 3: "concat (map snd (?c # ps)) = drop off data"
      using ps(3) by (simp add: add.commute)
    have 4: "length (?c # ps) \<le> length data - off"
      using ps(4) True less.prems by simp
    show ?thesis using 1 2 3 4 by blast
  qed
qed

lemma to_usv_plain: "list_all (\<lambda>c. \<not> is_high c \<and> \<not> is_low c) s \<Longrightarrow> to_usv s = s"
  by (induction s rule: to_usv.induct) auto

lemma digit_plain: "is_digit c \<Longrightarrow> \<not> is_high c \<and> \<not> is_low c"
  by (simp add: is_digit_def is_high_def is_low_def)

lemma to_usv_decimal: "to_usv (decimal n) = decimal n"
  using decimal_digits [of n] digit_plain
  by (intro to_usv_plain) (simp add: list_all_iff)

lemma to_usv_append: "to_usv a = a \<Longrightarrow> to_usv (a @ b) = a @ to_usv b"
proof (induction a rule: to_usv.induct)
  case 1
  show ?case by simp
next
  case (2 c)
  then have "\<not> (is_high c \<or> is_low c)"
    by (auto simp: is_high_def is_low_def split: if_splits)
  then show ?case by (cases b) auto
next
  case (3 c d rest)
  show ?case
  proof (cases "is_high c \<and> is_low d")
    case True
    then show ?thesis using 3 by simp
  next
    case False
    then have n: "\<not> (is_high c \<or> is_low c)"
      using "3.prems" by (auto simp: is_high_def is_low_def split: if_splits)
    then have "to_usv (d # rest) = d # rest" using "3.prems" False by simp
    then show ?thesis using 3 False n by simp
  qed
qed

lemma update_snoc: "k \<notin> fst ` set al \<Longrightarrow> AList.update k v al = al @ [(k, v)]"
  by (induction al) auto

lemma fold_update_distinct:
  "distinct (map fst (acc @ es)) \<Longrightarrow>
   fold (\<lambda>(k, v) obj. AList.update k v obj) es acc = acc @ es"
proof (induction es arbitrary: acc)
  case Nil
  show ?case by simp
next
  case (Cons e es)
  obtain k v where e: "e = (k, v)" by (cases e)
  have k: "k \<notin> fst ` set acc" using Cons.prems e by auto
  have d: "distinct (map fst ((acc @ [(k, v)]) @ es))" using Cons.prems e by auto
  show ?case
    using Cons.IH [OF d] e by (simp add: update_snoc [OF k])
qed

lemma fold_update_usv:
  "distinct (map fst (acc @ es)) \<Longrightarrow> \<forall>(k, v) \<in> set es. to_usv k = k \<and> to_usv v = v \<Longrightarrow>
   fold (\<lambda>(k, v) params. AList.update (to_usv k) (to_usv v) params) es acc = acc @ es"
proof (induction es arbitrary: acc)
  case Nil
  show ?case by simp
next
  case (Cons e es)
  obtain k v where e: "e = (k, v)" by (cases e)
  have k: "k \<notin> fst ` set acc" using Cons.prems(1) e by auto
  have d: "distinct (map fst ((acc @ [(k, v)]) @ es))" using Cons.prems(1) e by auto
  have u: "to_usv k = k" "to_usv v = v" using Cons.prems(2) e by auto
  have r: "\<forall>(k, v) \<in> set es. to_usv k = k \<and> to_usv v = v" using Cons.prems(2) by simp
  show ?case
    using Cons.IH [OF d r] e u by (simp add: update_snoc [OF k])
qed

lemma mset_own_properties: "mset (own_properties obj) = mset obj"
  by (simp add: own_properties_def)

lemma params_of_entries:
  assumes "distinct (map fst ps)" "\<forall>(k, v) \<in> set ps. to_usv k = k \<and> to_usv v = v"
  shows "URLSearchParams (Object_fromEntries ps) = own_properties ps"
proof -
  have o: "Object_fromEntries ps = ps"
    using fold_update_distinct [of "[]" ps] assms(1) by (simp add: Object_fromEntries_def)
  have s: "set (own_properties ps) = set ps"
    using mset_own_properties [of ps] by (rule mset_eq_setD)
  have "mset (map fst (own_properties ps)) = mset (map fst ps)"
    using mset_own_properties [of ps] by (metis mset_map)
  then have "distinct (map fst (own_properties ps))"
    using assms(1) by (rule mset_eq_imp_distinct_iff [THEN iffD2])
  then have d: "distinct (map fst ([] @ own_properties ps))"
    by simp
  have u: "\<forall>(k, v) \<in> set (own_properties ps). to_usv k = k \<and> to_usv v = v"
    using assms(2) s by simp
  show ?thesis
    using fold_update_usv [OF d u] o by (simp add: URLSearchParams_def)
qed

lemma mset_map_filter:
  "mset (List.map_filter f xs) = image_mset (the \<circ> f) (filter_mset (\<lambda>x. f x \<noteq> None) (mset xs))"
  by (simp add: List.map_filter_def)

lemma collect_parts_mset:
  "mset q = mset ps \<Longrightarrow> mset (collect_parts toIndex name q) = mset (collect_parts toIndex name ps)"
  by (simp only: collect_parts_def mset_map_filter)

lemma startsWith_append: "startsWith (name @ s) name"
  by (simp add: startsWith_def)

lemma collect_parts_chunks:
  "map fst ps = map (\<lambda>j. name @ decimal j) [i ..< i + length ps] \<Longrightarrow>
   \<forall>j < i + length ps. toIndex (decimal j) = Some (int j) \<Longrightarrow>
   collect_parts toIndex name ps = zip (map int [i ..< i + length ps]) (map snd ps)"
proof (induction ps arbitrary: i)
  case Nil
  show ?case by (simp add: collect_parts_def List.map_filter_simps)
next
  case (Cons p ps)
  obtain k v where p: "p = (k, v)" by (cases p)
  have k: "k = name @ decimal i"
    and r: "map fst ps = map (\<lambda>j. name @ decimal j) [Suc i ..< Suc i + length ps]"
    using Cons.prems(1) p by (simp_all add: upt_add_Suc del: upt_Suc)
  have t: "\<forall>j < Suc i + length ps. toIndex (decimal j) = Some (int j)"
    using Cons.prems(2) by simp
  have ti: "toIndex (decimal i) = Some (int i)" using Cons.prems(2) by simp
  have "collect_parts toIndex name ps = zip (map int [Suc i ..< Suc i + length ps]) (map snd ps)"
    using Cons.IH [OF r t] .
  then show ?case
    using p k ti
    by (simp add: collect_parts_def List.map_filter_simps startsWith_append upt_add_Suc
        del: upt_Suc)
qed

lemma chunk_keys_distinct: "distinct (map (\<lambda>j. name @ decimal j) [i ..< n])"
  by (simp add: distinct_map inj_on_def decimal_inj)

lemma inj_on_fst_zip: "distinct xs \<Longrightarrow> inj_on fst (set (zip xs ys))"
proof (induction xs arbitrary: ys)
  case Nil
  show ?case by simp
next
  case (Cons x xs)
  show ?case
  proof (cases ys)
    case Nil
    then show ?thesis by simp
  next
    case (Cons y ys')
    have "x \<notin> fst ` set (zip xs ys')"
      using Cons.prems by (auto dest: set_zip_leftD)
    then show ?thesis
      using Cons.IH [of ys'] Cons.prems Cons by (auto simp: inj_on_def)
  qed
qed

lemma join_chunks:
  assumes keys: "map fst ps = map (\<lambda>j. name @ decimal j) [0 ..< 0 + length ps]"
    and ne: "ps \<noteq> []"
    and idx: "\<forall>j < 0 + length ps. toIndex (decimal j) = Some (int j)"
    and un: "to_usv name = name"
    and uv: "\<forall>(k, v) \<in> set ps. to_usv v = v"
  shows "joinFromParams toIndex name (URLSearchParams (Object_fromEntries ps)) =
     Some (concat (map snd ps))"
proof -
  let ?q = "own_properties ps"
  let ?target = "zip (map int [0 ..< 0 + length ps]) (map snd ps)"
  have d: "distinct (map fst ps)"
    unfolding keys by (rule chunk_keys_distinct)
  have kset: "fst ` set ps = (\<lambda>j. name @ decimal j) ` {0 ..< length ps}"
    using keys by (metis add_0 atLeastLessThan_upt image_set)
  have uk: "\<forall>(k, v) \<in> set ps. to_usv k = k \<and> to_usv v = v"
  proof (clarify)
    fix k v assume kv: "(k, v) \<in> set ps"
    then have "k \<in> fst ` set ps" by force
    then obtain j where "k = name @ decimal j" using kset by auto
    then have "to_usv k = k" using to_usv_append [OF un] to_usv_decimal by simp
    then show "to_usv k = k \<and> to_usv v = v" using uv kv by auto
  qed
  have params: "URLSearchParams (Object_fromEntries ps) = ?q"
    using d uk by (rule params_of_entries)
  have m: "mset ?q = mset ps" by (rule mset_own_properties)
  have "name \<notin> fst ` set ps"
    using kset decimal_nonempty by auto
  then have "name \<notin> fst ` set ?q"
    using mset_eq_setD [OF m] by simp
  then have single: "map_of ?q (to_usv name) = None"
    by (simp add: un map_of_eq_None_iff)
  have c: "collect_parts toIndex name ps = ?target"
    using keys idx by (rule collect_parts_chunks)
  have pm: "mset (collect_parts toIndex name ?q) = mset ?target"
    using collect_parts_mset [OF m, of toIndex name] c by simp
  have "inj_on fst (set ?target)"
    by (rule inj_on_fst_zip) (simp add: distinct_map)
  then have inj: "inj_on fst (set (collect_parts toIndex name ?q))"
    using mset_eq_setD [OF pm] by simp
  have srt: "sorted (map fst ?target)" by (simp add: sorted_map)
  have s: "sort_key fst (collect_parts toIndex name ?q) = ?target"
    using pm inj srt by (rule sort_key_inj_key_eq)
  have "length (collect_parts toIndex name ?q) = length ?target"
    using pm by (metis size_mset)
  then have l: "length (collect_parts toIndex name ?q) \<noteq> 0"
    using ne by simp
  show ?thesis
    using single l s by (simp add: joinFromParams_def params truthy_def Let_def)
qed

lemma own_properties_single: "own_properties [p] = [p]"
  by (simp add: own_properties_def)

lemma join_single:
  assumes "to_usv name = name" "to_usv S = S" "toIndex [] = Some 0"
  shows "joinFromParams toIndex name (URLSearchParams (Object_fromEntries [(name, S)])) = Some S"
proof -
  have "URLSearchParams (Object_fromEntries [(name, S)]) = own_properties [(name, S)]"
    using assms(1,2) by (intro params_of_entries) simp_all
  then have p: "URLSearchParams (Object_fromEntries [(name, S)]) = [(name, S)]"
    by (simp only: own_properties_single)
  show ?thesis
    using assms
    by (simp add: p joinFromParams_def truthy_def Let_def collect_parts_def
        List.map_filter_simps startsWith_def)
qed

lemma toIndex_decimal_decimal: "toIndex_decimal (decimal j) = Some (int j)"
  by (simp add: toIndex_decimal_def decimal_nonempty decimal_digits decimal_value)

text \<open>
  Claim C6, as the code has it. For every string, every name and every \<^verbatim>\<open>maxLen\<close> of
  at least 1, \<^verbatim>\<open>splitIntoParams\<close> returns; the values it returns, put one after the
  other, are the string; and when the string is no longer than \<^verbatim>\<open>maxLen\<close> it returns
  the one parameter under the name itself. Joining what it returns through
  \<^verbatim>\<open>new URLSearchParams(Object.fromEntries(...))\<close> gives the string back when the name
  and each value returned have no surrogate code unit outside a pair, so that the
  \<^verbatim>\<open>URLSearchParams\<close> keeps them as they are. Of \<^verbatim>\<open>Number\<close> the proof uses that the
  empty string reads as 0 and the decimal numeral of a chunk counter as that counter.
\<close>

theorem chunker_round_trip:
  assumes "1 \<le> maxLen"
  shows "\<exists>ps. splitIntoParams name S maxLen = Some ps \<and>
              concat (map snd ps) = S \<and>
              (length S \<le> maxLen \<longrightarrow> ps = [(name, S)]) \<and>
              (to_usv name = name \<and> (\<forall>(k, v) \<in> set ps. to_usv v = v) \<and>
               toIndex [] = Some 0 \<and> (\<forall>j < length S. toIndex (decimal j) = Some (int j)) \<longrightarrow>
                 joinFromParams toIndex name (URLSearchParams (Object_fromEntries ps)) = Some S)"
proof (cases "length S \<le> maxLen")
  case True
  then show ?thesis by (simp add: splitIntoParams_def join_single)
next
  case False
  have pos: "0 < maxLen" using assms by simp
  from split_loop_chunks [OF pos, of name S 0 0 "[]"] obtain ps
    where ps: "split_loop name S maxLen 0 0 [] = Some ps"
      "map fst ps = map (\<lambda>j. name @ decimal j) [0 ..< 0 + length ps]"
      "concat (map snd ps) = S" "length ps \<le> length S"
    by auto
  have "S \<noteq> []" using False by auto
  then have ne: "ps \<noteq> []" using ps(3) by auto
  have j: "to_usv name = name \<and> (\<forall>(k, v) \<in> set ps. to_usv v = v) \<and>
      toIndex [] = Some 0 \<and> (\<forall>j < length S. toIndex (decimal j) = Some (int j)) \<longrightarrow>
      joinFromParams toIndex name (URLSearchParams (Object_fromEntries ps)) = Some S"
  proof (intro impI, elim conjE)
    assume un: "to_usv name = name" and uv: "\<forall>(k, v) \<in> set ps. to_usv v = v"
      and ti: "\<forall>j < length S. toIndex (decimal j) = Some (int j)"
    have idx: "\<forall>j < 0 + length ps. toIndex (decimal j) = Some (int j)"
      using ti ps(4) by simp
    show "joinFromParams toIndex name (URLSearchParams (Object_fromEntries ps)) = Some S"
      using join_chunks [OF ps(2) ne idx un uv] ps(3) by simp
  qed
  show ?thesis
    using False ps(1) ps(3) j by (simp add: splitIntoParams_def)
qed

theorem chunker_round_trip_witness:
  "(1::nat) \<le> 2 \<and>
   splitIntoParams (ascii ''cfg'') (ascii ''abcde'') 2 =
     Some [(ascii ''cfg0'', ascii ''ab''), (ascii ''cfg1'', ascii ''cd''), (ascii ''cfg2'', ascii ''e'')] \<and>
   to_usv (ascii ''cfg'') = ascii ''cfg'' \<and>
   to_usv (ascii ''ab'') = ascii ''ab'' \<and> to_usv (ascii ''cd'') = ascii ''cd'' \<and>
   to_usv (ascii ''e'') = ascii ''e'' \<and>
   toIndex_decimal [] = Some 0 \<and>
   toIndex_decimal (decimal 0) = Some 0 \<and> toIndex_decimal (decimal 1) = Some 1 \<and>
   toIndex_decimal (decimal 2) = Some 2 \<and> toIndex_decimal (decimal 3) = Some 3 \<and>
   toIndex_decimal (decimal 4) = Some 4 \<and>
   joinFromParams toIndex_decimal (ascii ''cfg'')
     (URLSearchParams (Object_fromEntries
        [(ascii ''cfg0'', ascii ''ab''), (ascii ''cfg1'', ascii ''cd''), (ascii ''cfg2'', ascii ''e'')]))
     = Some (ascii ''abcde'') \<and>
   length (ascii ''ab'') \<le> (2::nat) \<and>
   splitIntoParams (ascii ''cfg'') (ascii ''ab'') 2 = Some [(ascii ''cfg'', ascii ''ab'')]"
proof -
  let ?ps = "[(ascii ''cfg0'', ascii ''ab''), (ascii ''cfg1'', ascii ''cd''), (ascii ''cfg2'', ascii ''e'')]"
  have h: "(1::nat) \<le> 2" by simp
  have e: "splitIntoParams (ascii ''cfg'') (ascii ''abcde'') 2 = Some ?ps"
    by (simp add: splitIntoParams_def split_loop.simps decimal.simps ascii_def)
  have un: "to_usv (ascii ''cfg'') = ascii ''cfg''"
    by (simp add: ascii_def is_high_def is_low_def)
  have uv: "\<forall>(k, v) \<in> set ?ps. to_usv v = v"
    by (simp add: ascii_def is_high_def is_low_def)
  have t0: "toIndex_decimal [] = Some 0" by (simp add: toIndex_decimal_def)
  have ti: "\<forall>j < length (ascii ''abcde''). toIndex_decimal (decimal j) = Some (int j)"
    by (simp add: toIndex_decimal_decimal)
  from chunker_round_trip [OF h, of "ascii ''cfg''" "ascii ''abcde''" toIndex_decimal] e un uv t0 ti
  have j: "joinFromParams toIndex_decimal (ascii ''cfg'') (URLSearchParams (Object_fromEntries ?ps))
      = Some (ascii ''abcde'')"
    by auto
  from chunker_round_trip [OF h, of "ascii ''cfg''" "ascii ''ab''" toIndex_decimal]
  have s: "splitIntoParams (ascii ''cfg'') (ascii ''ab'') 2 = Some [(ascii ''cfg'', ascii ''ab'')]"
    by (auto simp: ascii_def)
  have d: "toIndex_decimal (decimal 0) = Some 0" "toIndex_decimal (decimal 1) = Some 1"
    "toIndex_decimal (decimal 2) = Some 2" "toIndex_decimal (decimal 3) = Some 3"
    "toIndex_decimal (decimal 4) = Some 4"
    using toIndex_decimal_decimal [of 0] toIndex_decimal_decimal [of 1] toIndex_decimal_decimal [of 2]
      toIndex_decimal_decimal [of 3] toIndex_decimal_decimal [of 4]
    by simp_all
  have l: "length (ascii ''ab'') \<le> (2::nat)" by (simp add: ascii_def)
  have uv': "to_usv (ascii ''ab'') = ascii ''ab''" "to_usv (ascii ''cd'') = ascii ''cd''"
    "to_usv (ascii ''e'') = ascii ''e''"
    using uv by simp_all
  show ?thesis
    by (intro conjI) (rule h e un uv' t0 d j l s)+
qed

text \<open>
  As claim C6 words it, the round trip holds of every string. The string of the two
  code units U+D83D U+DE00, one character outside the basic plane, is cut between
  them when \<^verbatim>\<open>maxLen\<close> is 1; each half enters the \<^verbatim>\<open>URLSearchParams\<close> as U+FFFD, and
  the join gives two U+FFFD.
\<close>

theorem chunker_surrogate_counterexample:
  "(1::nat) \<le> 1 \<and>
   splitIntoParams (ascii ''cfg'') [55357, 56832] 1 =
     Some [(ascii ''cfg0'', [55357]), (ascii ''cfg1'', [56832])] \<and>
   joinFromParams toIndex_decimal (ascii ''cfg'')
     (URLSearchParams (Object_fromEntries [(ascii ''cfg0'', [55357]), (ascii ''cfg1'', [56832])]))
     = Some [65533, 65533] \<and>
   [65533, 65533] \<noteq> [55357, 56832 :: nat]"
  by (simp add: splitIntoParams_def split_loop.simps decimal.simps ascii_def
      joinFromParams_def URLSearchParams_def Object_fromEntries_def own_properties_def
      array_index_def is_digit_def is_high_def is_low_def collect_parts_def
      List.map_filter_simps startsWith_def toIndex_decimal_def digits_value_def truthy_def Let_def)

section \<open>Properties of the snapshot store\<close>

lemma findIndex_Some:
  "findIndex P xs = Some i \<Longrightarrow> i < length xs \<and> P (xs ! i) \<and> (\<forall>j<i. \<not> P (xs ! j))"
proof (induction xs arbitrary: i)
  case Nil
  then show ?case by simp
next
  case (Cons x xs)
  show ?case
  proof (cases "P x")
    case True
    then show ?thesis using Cons.prems by simp
  next
    case False
    then obtain k where k: "findIndex P xs = Some k" "i = Suc k"
      using Cons.prems by auto
    from Cons.IH [OF k(1)] show ?thesis
      using False k(2) by (auto simp: less_Suc_eq_0_disj)
  qed
qed

lemma findIndex_None: "findIndex P xs = None \<longleftrightarrow> (\<forall>x \<in> set xs. \<not> P x)"
  by (induction xs) auto

lemma move_to_front_filter:
  assumes "i < length xs" "distinct (map f xs)" "f (xs ! i) = k" "f e = k"
  shows "distinct (map f (e # take i xs @ drop (Suc i) xs))"
    and "length (filter (\<lambda>x. f x = k) (e # take i xs @ drop (Suc i) xs)) = 1"
proof -
  have xs: "xs = take i xs @ xs ! i # drop (Suc i) xs"
    using assms(1) by (simp add: id_take_nth_drop)
  have d: "distinct (map f (take i xs @ xs ! i # drop (Suc i) xs))"
    using assms(2) xs by simp
  then have n1: "k \<notin> f ` set (take i xs)" and n2: "k \<notin> f ` set (drop (Suc i) xs)"
    using assms(3) by auto
  show "distinct (map f (e # take i xs @ drop (Suc i) xs))"
    using d n1 n2 assms(3,4) by auto
  have "filter (\<lambda>x. f x = k) (take i xs) = []" "filter (\<lambda>x. f x = k) (drop (Suc i) xs) = []"
    using n1 n2 by (auto simp: filter_empty_conv)
  then show "length (filter (\<lambda>x. f x = k) (e # take i xs @ drop (Suc i) xs)) = 1"
    using assms(4) by simp
qed

lemma upsert_found:
  assumes "states store = Some list" "findIndex (\<lambda>s. snap_md5 s = md5Hex (cfg @ svc)) list = Some i"
  shows "upsertSnapshotByMd5 md5Hex now store name type cfg svc =
     (store\<lparr>states := Some ((list ! i)\<lparr>snap_ts := now,
          snap_name := (if truthy name then name else snap_name (list ! i))\<rparr>
          # take i list @ drop (Suc i) list)\<rparr>, md5Hex (cfg @ svc), True)"
proof (cases i)
  case 0
  have "0 < length list"
    using findIndex_Some [where P = "\<lambda>s. snap_md5 s = md5Hex (cfg @ svc)", OF assms(2)] 0 by simp
  then obtain x xs where l: "list = x # xs" by (cases list) auto
  show ?thesis
    using assms 0 l by (simp add: upsertSnapshotByMd5_def Let_def)
next
  case (Suc k)
  then show ?thesis
    using assms by (simp add: upsertSnapshotByMd5_def Let_def)
qed

lemma upsert_new:
  assumes "states store = Some list" "findIndex (\<lambda>s. snap_md5 s = md5Hex (cfg @ svc)) list = None"
  shows "upsertSnapshotByMd5 md5Hex now store name type cfg svc =
     (store\<lparr>states := Some (\<lparr>snap_name = name, snap_type = type, snap_md5 = md5Hex (cfg @ svc),
          snap_cfg = cfg, snap_svc = svc, snap_ts = now\<rparr> # list)\<rparr>, md5Hex (cfg @ svc), False)"
  using assms by (simp add: upsertSnapshotByMd5_def Let_def)

lemma upsert_one_entry:
  assumes "states store = Some list" "distinct (map snap_md5 list)"
  shows "\<exists>l'. states (fst (upsertSnapshotByMd5 md5Hex now store name type cfg svc)) = Some l' \<and>
           distinct (map snap_md5 l') \<and>
           length (filter (\<lambda>s. snap_md5 s = md5Hex (cfg @ svc)) l') = 1"
proof (cases "findIndex (\<lambda>s. snap_md5 s = md5Hex (cfg @ svc)) list")
  case None
  then have n: "\<forall>s \<in> set list. snap_md5 s \<noteq> md5Hex (cfg @ svc)"
    by (simp add: findIndex_None)
  then have "filter (\<lambda>s. snap_md5 s = md5Hex (cfg @ svc)) list = []"
    by (simp add: filter_empty_conv)
  then show ?thesis
    using upsert_new [where md5Hex = md5Hex and cfg = cfg and svc = svc, OF assms(1) None] assms(2) n by auto
next
  case (Some i)
  let ?e = "(list ! i)\<lparr>snap_ts := now,
          snap_name := (if truthy name then name else snap_name (list ! i))\<rparr>"
  have i: "i < length list" "snap_md5 (list ! i) = md5Hex (cfg @ svc)"
    using findIndex_Some [where P = "\<lambda>s. snap_md5 s = md5Hex (cfg @ svc)", OF Some] by simp_all
  have e: "snap_md5 ?e = md5Hex (cfg @ svc)" using i(2) by simp
  show ?thesis
    using upsert_found [where md5Hex = md5Hex and cfg = cfg and svc = svc, OF assms(1) Some] move_to_front_filter [OF i(1) assms(2) i(2) e]
    by simp
qed

lemma save_first:
  "saveStateSnapshot md5Hex t1 None name1 type1 cfg1 svc1 =
     (Some \<lparr>version = Some CURRENT_VERSION,
            states = Some [\<lparr>snap_name = name1, snap_type = type1, snap_md5 = md5Hex (cfg1 @ svc1),
                            snap_cfg = cfg1, snap_svc = svc1, snap_ts = t1\<rparr>]\<rparr>,
      md5Hex (cfg1 @ svc1))"
  by (simp add: saveStateSnapshot_def loadStateStore_def saveStateStore_def
      upsertSnapshotByMd5_def Let_def)

lemma save_twice:
  "saveStateSnapshot md5Hex t2 (fst (saveStateSnapshot md5Hex t1 None name1 type1 cfg1 svc1))
     name2 type2 cfg2 svc2 =
   (Some \<lparr>version = Some CURRENT_VERSION,
          states = Some
            (if md5Hex (cfg1 @ svc1) = md5Hex (cfg2 @ svc2)
             then [\<lparr>snap_name = (if truthy name2 then name2 else name1), snap_type = type1,
                    snap_md5 = md5Hex (cfg1 @ svc1), snap_cfg = cfg1, snap_svc = svc1,
                    snap_ts = t2\<rparr>]
             else [\<lparr>snap_name = name2, snap_type = type2, snap_md5 = md5Hex (cfg2 @ svc2),
                    snap_cfg = cfg2, snap_svc = svc2, snap_ts = t2\<rparr>,
                   \<lparr>snap_name = name1, snap_type = type1, snap_md5 = md5Hex (cfg1 @ svc1),
                    snap_cfg = cfg1, snap_svc = svc1, snap_ts = t1\<rparr>])\<rparr>,
    md5Hex (cfg2 @ svc2))"
  by (simp add: save_first)
    (simp add: saveStateSnapshot_def loadStateStore_def saveStateStore_def
      upsertSnapshotByMd5_def Let_def)

text \<open>
  Claim C4. For a state store whose \<^verbatim>\<open>states\<close> is an array: when an entry has the MD5
  of the concatenation of \<^verbatim>\<open>cfg\<close> and \<^verbatim>\<open>svc\<close>, the first such entry gets the new time
  stamp, gets the name when a non-empty name is given, and moves to the head of the
  list, and no entry is added; when no entry has that MD5 a new entry is put at the
  head. In a store whose MD5s are distinct, exactly one entry has that MD5 afterwards.
  Saving twice into empty storage leaves one entry when the two concatenations are
  the same (with the later time stamp and, if given, the later name), and two
  entries, the later first, when their MD5s differ.
\<close>

theorem snapshot_coalescing:
  assumes "states store = Some list"
  shows
   "(let md5 = md5Hex (cfg @ svc);
         (store', hash, updated) = upsertSnapshotByMd5 md5Hex now store name type cfg svc
     in hash = md5 \<and>
        (case findIndex (\<lambda>s. snap_md5 s = md5) list of
           Some i \<Rightarrow>
             i < length list \<and> snap_md5 (list ! i) = md5 \<and>
             (\<forall>j<i. snap_md5 (list ! j) \<noteq> md5) \<and> updated \<and>
             states store' =
               Some ((list ! i)\<lparr>snap_ts := now,
                       snap_name := (if truthy name then name else snap_name (list ! i))\<rparr>
                     # take i list @ drop (Suc i) list)
         | None \<Rightarrow>
             (\<forall>s \<in> set list. snap_md5 s \<noteq> md5) \<and> \<not> updated \<and>
             states store' =
               Some (\<lparr>snap_name = name, snap_type = type, snap_md5 = md5, snap_cfg = cfg,
                      snap_svc = svc, snap_ts = now\<rparr> # list)) \<and>
        (distinct (map snap_md5 list) \<longrightarrow>
           (\<exists>l'. states store' = Some l' \<and> distinct (map snap_md5 l') \<and>
                 length (filter (\<lambda>s. snap_md5 s = md5) l') = 1))) \<and>
    (let after = fst (saveStateSnapshot md5Hex t2
                   (fst (saveStateSnapshot md5Hex t1 None name1 type1 cfg1 svc1))
                   name2 type2 cfg2 svc2)
     in (cfg1 @ svc1 = cfg2 @ svc2 \<longrightarrow>
           map_option states after =
             Some (Some [\<lparr>snap_name = (if truthy name2 then name2 else name1), snap_type = type1,
                          snap_md5 = md5Hex (cfg1 @ svc1), snap_cfg = cfg1, snap_svc = svc1,
                          snap_ts = t2\<rparr>])) \<and>
        (md5Hex (cfg1 @ svc1) \<noteq> md5Hex (cfg2 @ svc2) \<longrightarrow>
           map_option states after =
             Some (Some [\<lparr>snap_name = name2, snap_type = type2, snap_md5 = md5Hex (cfg2 @ svc2),
                          snap_cfg = cfg2, snap_svc = svc2, snap_ts = t2\<rparr>,
                         \<lparr>snap_name = name1, snap_type = type1, snap_md5 = md5Hex (cfg1 @ svc1),
                          snap_cfg = cfg1, snap_svc = svc1, snap_ts = t1\<rparr>])))"
proof -
  let ?md5 = "md5Hex (cfg @ svc)"
  let ?r = "upsertSnapshotByMd5 md5Hex now store name type cfg svc"
  have one: "distinct (map snap_md5 list) \<longrightarrow>
      (\<exists>l'. states (fst ?r) = Some l' \<and> distinct (map snap_md5 l') \<and>
            length (filter (\<lambda>s. snap_md5 s = ?md5) l') = 1)"
    using upsert_one_entry [OF assms] by blast
  have first: "(let md5 = ?md5; (store', hash, updated) = ?r
     in hash = md5 \<and>
        (case findIndex (\<lambda>s. snap_md5 s = md5) list of
           Some i \<Rightarrow>
             i < length list \<and> snap_md5 (list ! i) = md5 \<and>
             (\<forall>j<i. snap_md5 (list ! j) \<noteq> md5) \<and> updated \<and>
             states store' =
               Some ((list ! i)\<lparr>snap_ts := now,
                       snap_name := (if truthy name then name else snap_name (list ! i))\<rparr>
                     # take i list @ drop (Suc i) list)
         | None \<Rightarrow>
             (\<forall>s \<in> set list. snap_md5 s \<noteq> md5) \<and> \<not> updated \<and>
             states store' =
               Some (\<lparr>snap_name = name, snap_type = type, snap_md5 = md5, snap_cfg = cfg,
                      snap_svc = svc, snap_ts = now\<rparr> # list)) \<and>
        (distinct (map snap_md5 list) \<longrightarrow>
           (\<exists>l'. states store' = Some l' \<and> distinct (map snap_md5 l') \<and>
                 length (filter (\<lambda>s. snap_md5 s = md5) l') = 1)))"
  proof (cases "findIndex (\<lambda>s. snap_md5 s = ?md5) list")
    case None
    have n: "\<forall>s \<in> set list. snap_md5 s \<noteq> ?md5"
      using None by (simp add: findIndex_None)
    show ?thesis
      using one n None
      by (simp add: upsert_new [where md5Hex = md5Hex and cfg = cfg and svc = svc, OF assms None])
  next
    case (Some i)
    have f: "i < length list \<and> snap_md5 (list ! i) = ?md5 \<and> (\<forall>j<i. snap_md5 (list ! j) \<noteq> ?md5)"
      using findIndex_Some [where P = "\<lambda>s. snap_md5 s = ?md5", OF Some] by simp
    show ?thesis
      using one f Some
      by (simp add: upsert_found [where md5Hex = md5Hex and cfg = cfg and svc = svc, OF assms Some])
  qed
  have second: "(let after = fst (saveStateSnapshot md5Hex t2
                   (fst (saveStateSnapshot md5Hex t1 None name1 type1 cfg1 svc1))
                   name2 type2 cfg2 svc2)
     in (cfg1 @ svc1 = cfg2 @ svc2 \<longrightarrow>
           map_option states after =
             Some (Some [\<lparr>snap_name = (if truthy name2 then name2 else name1), snap_type = type1,
                          snap_md5 = md5Hex (cfg1 @ svc1), snap_cfg = cfg1, snap_svc = svc1,
                          snap_ts = t2\<rparr>])) \<and>
        (md5Hex (cfg1 @ svc1) \<noteq> md5Hex (cfg2 @ svc2) \<longrightarrow>
           map_option states after =
             Some (Some [\<lparr>snap_name = name2, snap_type = type2, snap_md5 = md5Hex (cfg2 @ svc2),
                          snap_cfg = cfg2, snap_svc = svc2, snap_ts = t2\<rparr>,
                         \<lparr>snap_name = name1, snap_type = type1, snap_md5 = md5Hex (cfg1 @ svc1),
                          snap_cfg = cfg1, snap_svc = svc1, snap_ts = t1\<rparr>])))"
    by (simp add: save_twice Let_def)
  show ?thesis using first second by (rule conjI)
qed

theorem snapshot_coalescing_witness:
  "states \<lparr>version = Some 1, states = Some
      [\<lparr>snap_name = Some ''a'', snap_type = ''autosave'', snap_md5 = ''c1s1'', snap_cfg = ''c1'',
        snap_svc = ''s1'', snap_ts = 1\<rparr>,
       \<lparr>snap_name = Some ''b'', snap_type = ''imported'', snap_md5 = ''c2s2'', snap_cfg = ''c2'',
        snap_svc = ''s2'', snap_ts = 2\<rparr>]\<rparr> =
     Some
      [\<lparr>snap_name = Some ''a'', snap_type = ''autosave'', snap_md5 = ''c1s1'', snap_cfg = ''c1'',
        snap_svc = ''s1'', snap_ts = 1\<rparr>,
       \<lparr>snap_name = Some ''b'', snap_type = ''imported'', snap_md5 = ''c2s2'', snap_cfg = ''c2'',
        snap_svc = ''s2'', snap_ts = 2\<rparr>] \<and>
   states (fst (upsertSnapshotByMd5 (\<lambda>s. s) 7
      \<lparr>version = Some 1, states = Some
        [\<lparr>snap_name = Some ''a'', snap_type = ''autosave'', snap_md5 = ''c1s1'', snap_cfg = ''c1'',
          snap_svc = ''s1'', snap_ts = 1\<rparr>,
         \<lparr>snap_name = Some ''b'', snap_type = ''imported'', snap_md5 = ''c2s2'', snap_cfg = ''c2'',
          snap_svc = ''s2'', snap_ts = 2\<rparr>]\<rparr>
      (Some ''new'') ''exported'' ''c2'' ''s2'')) =
     Some
      [\<lparr>snap_name = Some ''new'', snap_type = ''imported'', snap_md5 = ''c2s2'', snap_cfg = ''c2'',
        snap_svc = ''s2'', snap_ts = 7\<rparr>,
       \<lparr>snap_name = Some ''a'', snap_type = ''autosave'', snap_md5 = ''c1s1'', snap_cfg = ''c1'',
        snap_svc = ''s1'', snap_ts = 1\<rparr>] \<and>
   map_option states (fst (saveStateSnapshot (\<lambda>s. s) 2
      (fst (saveStateSnapshot (\<lambda>s. s) 1 None (Some ''first'') ''exported'' ''cfg'' ''svc''))
      (Some ''second'') ''imported'' ''cfg'' ''svc'')) =
     Some (Some [\<lparr>snap_name = Some ''second'', snap_type = ''exported'', snap_md5 = ''cfgsvc'',
                  snap_cfg = ''cfg'', snap_svc = ''svc'', snap_ts = 2\<rparr>]) \<and>
   map_option states (fst (saveStateSnapshot (\<lambda>s. s) 2
      (fst (saveStateSnapshot (\<lambda>s. s) 1 None (Some ''first'') ''exported'' ''cfg'' ''svc''))
      (Some ''second'') ''imported'' ''cfg'' ''other'')) =
     Some (Some [\<lparr>snap_name = Some ''second'', snap_type = ''imported'', snap_md5 = ''cfgother'',
                  snap_cfg = ''cfg'', snap_svc = ''other'', snap_ts = 2\<rparr>,
                 \<lparr>snap_name = Some ''first'', snap_type = ''exported'', snap_md5 = ''cfgsvc'',
                  snap_cfg = ''cfg'', snap_svc = ''svc'', snap_ts = 1\<rparr>])"
proof -
  let ?a = "\<lparr>snap_name = Some ''a'', snap_type = ''autosave'', snap_md5 = ''c1s1'', snap_cfg = ''c1'',
        snap_svc = ''s1'', snap_ts = 1\<rparr>"
  let ?b = "\<lparr>snap_name = Some ''b'', snap_type = ''imported'', snap_md5 = ''c2s2'', snap_cfg = ''c2'',
        snap_svc = ''s2'', snap_ts = 2\<rparr>"
  let ?store = "\<lparr>version = Some 1, states = Some [?a, ?b]\<rparr>"
  have h: "states ?store = Some [?a, ?b]" by simp
  have 1: "states (fst (upsertSnapshotByMd5 (\<lambda>s. s) 7 ?store (Some ''new'') ''exported'' ''c2'' ''s2'')) =
     Some [?b\<lparr>snap_ts := 7, snap_name := Some ''new''\<rparr>, ?a]"
    using snapshot_coalescing [OF h, of "\<lambda>s. s" "''c2''" "''s2''" 7 "Some ''new''" "''exported''",
        THEN conjunct1]
    by (simp add: Let_def truthy_def split: prod.splits)
  have 2: "map_option states (fst (saveStateSnapshot (\<lambda>s. s) 2
      (fst (saveStateSnapshot (\<lambda>s. s) 1 None (Some ''first'') ''exported'' ''cfg'' ''svc''))
      (Some ''second'') ''imported'' ''cfg'' ''svc'')) =
     Some (Some [\<lparr>snap_name = Some ''second'', snap_type = ''exported'', snap_md5 = ''cfgsvc'',
                  snap_cfg = ''cfg'', snap_svc = ''svc'', snap_ts = 2\<rparr>])"
    using snapshot_coalescing [OF h, of "\<lambda>s. s" _ _ _ _ _ 2 1 "Some ''first''" "''exported''"
        "''cfg''" "''svc''" "Some ''second''" "''imported''" "''cfg''" "''svc''", THEN conjunct2]
    by (simp add: Let_def truthy_def)
  have 3: "map_option states (fst (saveStateSnapshot (\<lambda>s. s) 2
      (fst (saveStateSnapshot (\<lambda>s. s) 1 None (Some ''first'') ''exported'' ''cfg'' ''svc''))
      (Some ''second'') ''imported'' ''cfg'' ''other'')) =
     Some (Some [\<lparr>snap_name = Some ''second'', snap_type = ''imported'', snap_md5 = ''cfgother'',
                  snap_cfg = ''cfg'', snap_svc = ''other'', snap_ts = 2\<rparr>,
                 \<lparr>snap_name = Some ''first'', snap_type = ''exported'', snap_md5 = ''cfgsvc'',
                  snap_cfg = ''cfg'', snap_svc = ''svc'', snap_ts = 1\<rparr>])"
    using snapshot_coalescing [OF h, of "\<lambda>s. s" _ _ _ _ _ 2 1 "Some ''first''" "''exported''"
        "''cfg''" "''svc''" "Some ''second''" "''imported''" "''cfg''" "''other''", THEN conjunct2]
    by (simp add: Let_def truthy_def)
  show ?thesis using 1 2 3 by simp
qed


end
